theory Spec2Isabelle
  imports Complex_Main "HOL-Library.Sublist" "HOL-Library.Multiset"
begin

section \<open>The resource client\<close>

text \<open>
  Every operation of the workflow goes through \<open>run_az_command\<close>, which starts one
  \<open>az\<close> process. The command texts of the source are f-strings over a fixed set of
  templates; a command is represented by its template and the values formatted into it.
  \<open>AccountSet\<close> is the only command the source passes as an argument list; all the
  others are passed as one shell string.
\<close>

datatype command =
    AccountShow
  | AccountList
  | AccountSet string
  | LockList string
  | LockDelete string string
  | SnapshotShow string
  | SnapshotDelete string
  | LockCreate string string

text \<open>
  What one process does: it ends with return code 0 and its (stripped) standard output,
  it ends with another return code and its (stripped) standard error, or starting it
  raises an exception with the given text.
\<close>

datatype proc = Exit0 string | ExitFail string | Crash string

datatype exn =
    CalledProcessError command
  | JSONDecodeError
  | TypeError
  | AttributeError
  | IndexError
  | OSError string

text \<open>
  The three workflow files share their helper functions. \<open>Sequential\<close> is
  \<open>delete_snapshots.py\<close>; \<open>Cooperative\<close> is the event-loop file
  \<open>v2_az_getdelsnap.py\<close>, whose \<open>run_az_command\<close> answers \<open>None\<close> for every failure
  and never raises. The threaded file \<open>delete_snapshot.py\<close> has the helper functions of
  the sequential one and the same sequence of phases; the order in which its worker pools
  complete is not fixed by the source and is not part of this development.
\<close>

datatype variant = Sequential | Cooperative

text \<open>
  Messages written for the operator by the lock phases (logging calls of the source), each
  with the lock name and the resource group of its text.
\<close>

datatype logline =
    Removed_lock string string
  | Remove_failed string string
  | Restored_lock string string
  | Restore_failed string string

record trace =
  calls :: "command list"
  messages :: "logline list"

text \<open>
  The world outside the program. The answer of a process may depend on every command
  issued before it (\<open>respond\<close>). \<open>decode_accounts\<close> and \<open>decode_locks\<close> stand for
  \<open>json.loads\<close> on the output of the two listing commands, whose \<open>--query\<close> projections
  yield objects with the fields \<open>id\<close>, \<open>name\<close> and \<open>name\<close>, \<open>level\<close>; \<open>None\<close> is a
  decoding fault. \<open>visit\<close> is the order in which a \<open>for\<close> loop meets the members of a
  Python \<open>set\<close>. \<open>makedirs\<close>, \<open>written\<close> and \<open>now\<close> are the file system and the clock
  seen by \<open>generate_log_file\<close> and \<open>main\<close>; \<open>str_of\<close> is \<open>str(e)\<close>.
\<close>

record world =
  respond :: "command list \<Rightarrow> command \<Rightarrow> proc"
  decode_accounts :: "string \<Rightarrow> (string \<times> string) list option"
  decode_locks :: "string \<Rightarrow> (string \<times> string) list option"
  visit :: "(string \<times> string) list \<Rightarrow> (string \<times> string) list"
  makedirs :: "command list \<Rightarrow> exn option"
  written :: "command list \<Rightarrow> string option"
  now :: "command list \<Rightarrow> real"
  str_of :: "exn \<Rightarrow> string"

definition start :: trace where
  "start = \<lparr>calls = [], messages = []\<rparr>"

definition issue :: "command \<Rightarrow> trace \<Rightarrow> trace" where
  "issue c s = s\<lparr>calls := calls s @ [c]\<rparr>"

definition tell :: "logline \<Rightarrow> trace \<Rightarrow> trace" where
  "tell l s = s\<lparr>messages := messages s @ [l]\<rparr>"

fun is_list_command :: "command \<Rightarrow> bool" where
  "is_list_command (AccountSet _) = True"
| "is_list_command _ = False"

text \<open>
  \<open>run_az_command\<close>. Sequential: a list command runs with \<open>check=True\<close>, so a non-zero
  return code raises \<open>CalledProcessError\<close>, which is logged and raised again; a shell
  string with a non-zero return code gives the text \<open>Error: <stderr>\<close>; any other
  exception gives \<open>Error: <text>\<close>. Cooperative: return code 0 gives the output, everything
  else gives \<open>None\<close>.
\<close>

definition run_az_command ::
  "variant \<Rightarrow> world \<Rightarrow> command \<Rightarrow> trace \<Rightarrow> (exn + string option) \<times> trace" where
  "run_az_command v w command s =
     (case v of
        Sequential \<Rightarrow>
          (case respond w (calls s) command of
             Exit0 out \<Rightarrow> (Inr (Some out), issue command s)
           | ExitFail err \<Rightarrow>
               if is_list_command command then (Inl (CalledProcessError command), issue command s)
               else (Inr (Some (''Error: '' @ err)), issue command s)
           | Crash e \<Rightarrow> (Inr (Some (''Error: '' @ e)), issue command s))
      | Cooperative \<Rightarrow>
          (case respond w (calls s) command of
             Exit0 out \<Rightarrow> (Inr (Some out), issue command s)
           | ExitFail err \<Rightarrow> (Inr None, issue command s)
           | Crash e \<Rightarrow> (Inr None, issue command s)))"

definition startswith_Error :: "string \<Rightarrow> bool" where
  "startswith_Error result = prefix ''Error:'' result"

text \<open>
  The success test on a result. Sequential: \<open>not result.startswith("Error:")\<close>, which
  raises on \<open>None\<close>. Cooperative: \<open>result is not None and not result.startswith("Error:")\<close>.
\<close>

fun succeeded :: "variant \<Rightarrow> string option \<Rightarrow> exn + bool" where
  "succeeded Sequential None = Inl AttributeError"
| "succeeded Sequential (Some result) = Inr (\<not> startswith_Error result)"
| "succeeded Cooperative None = Inr False"
| "succeeded Cooperative (Some result) = Inr (\<not> startswith_Error result)"

text \<open>Truthiness of a result (\<open>if result:\<close>): neither \<open>None\<close> nor the empty text.\<close>

fun truthy :: "string option \<Rightarrow> bool" where
  "truthy None = False"
| "truthy (Some text) = (text \<noteq> [])"

text \<open>
  \<open>check_az_login\<close>. Sequential: the result must not start with \<open>Error:\<close>, and any
  exception means not logged in. Cooperative: the result must be truthy.
\<close>

definition check_az_login :: "variant \<Rightarrow> world \<Rightarrow> trace \<Rightarrow> bool \<times> trace" where
  "check_az_login v w s =
     (case run_az_command v w AccountShow s of
        (Inl e, s') \<Rightarrow> (False, s')
      | (Inr result, s') \<Rightarrow>
          (case v of
             Sequential \<Rightarrow>
               (case succeeded Sequential result of Inl e \<Rightarrow> (False, s') | Inr ok \<Rightarrow> (ok, s'))
           | Cooperative \<Rightarrow> (truthy result, s')))"

text \<open>
  \<open>json.loads\<close> raises \<open>TypeError\<close> on \<open>None\<close>, and \<open>JSONDecodeError\<close> on a text whose
  first significant character cannot open a JSON value; so it does on every \<open>Error: ...\<close>
  text. The rest of the decoding is the world's.
\<close>

definition opens_json :: "string \<Rightarrow> bool" where
  "opens_json text =
     (case dropWhile (\<lambda>c. c \<in> set [CHR '' '', CHR 0x09, CHR 0x0A, CHR 0x0D]) text of
        [] \<Rightarrow> False
      | c # _ \<Rightarrow> c \<in> set ''{[-0123456789tfnNI'' \<or> c = CHR 0x22)"

definition json_loads ::
  "(string \<Rightarrow> 'a option) \<Rightarrow> string option \<Rightarrow> exn + 'a" where
  "json_loads decode result =
     (case result of
        None \<Rightarrow> Inl TypeError
      | Some text \<Rightarrow>
          if opens_json text then
            (case decode text of None \<Rightarrow> Inl JSONDecodeError | Some value \<Rightarrow> Inr value)
          else Inl JSONDecodeError)"

text \<open>A dict comprehension over pairs: a later pair replaces an earlier one with its key.\<close>

definition dict_of :: "(string \<times> string) list \<Rightarrow> (string \<rightharpoonup> string)" where
  "dict_of pairs = map_of (rev pairs)"

text \<open>
  \<open>get_subscription_names\<close> (Sequential), and \<open>get_subscriptions\<close> with the comprehension
  of \<open>delete_snapshots\<close> (Cooperative). A failed listing gives the empty dict.
\<close>

definition get_subscription_names ::
  "variant \<Rightarrow> world \<Rightarrow> trace \<Rightarrow> (exn + (string \<rightharpoonup> string)) \<times> trace" where
  "get_subscription_names v w s =
     (case run_az_command v w AccountList s of
        (Inl e, s') \<Rightarrow> (Inl e, s')
      | (Inr result, s') \<Rightarrow>
          if truthy result \<and> (v = Cooperative \<or> succeeded v result = Inr True) then
            (case json_loads (decode_accounts w) result of
               Inl e \<Rightarrow> (Inl e, s')
             | Inr subscriptions \<Rightarrow> (Inr (dict_of subscriptions), s'))
          else (Inr Map.empty, s'))"

text \<open>
  \<open>switch_subscription\<close>: nothing is issued when the subscription is the current one;
  an exception of the command is logged and raised again.
\<close>

definition switch_subscription ::
  "variant \<Rightarrow> world \<Rightarrow> string \<Rightarrow> string option \<Rightarrow> trace \<Rightarrow> (exn + string option) \<times> trace" where
  "switch_subscription v w subscription current_subscription s =
     (if Some subscription \<noteq> current_subscription then
        (case run_az_command v w (AccountSet subscription) s of
           (Inl e, s') \<Rightarrow> (Inl e, s')
         | (Inr result, s') \<Rightarrow> (Inr (Some subscription), s'))
      else (Inr current_subscription, s))"

section \<open>Identifiers\<close>

text \<open>\<open>str.split(sep)\<close> for a one-character separator: one part more than separators.\<close>

fun split_on :: "char \<Rightarrow> string \<Rightarrow> string list" where
  "split_on sep [] = [[]]"
| "split_on sep (c # cs) =
     (if c = sep then [] # split_on sep cs
      else (case split_on sep cs of
              [] \<Rightarrow> [[c]]
            | part # parts \<Rightarrow> (c # part) # parts))"

definition parts_of :: "string \<Rightarrow> string list" where
  "parts_of snapshot_id = split_on CHR ''/'' snapshot_id"

text \<open>
  \<open>get_resource_groups_from_snapshots\<close> builds a set of pairs; the set is kept as the
  list of its members, each once.
\<close>

fun get_resource_groups_from_snapshots :: "string list \<Rightarrow> (string \<times> string) list" where
  "get_resource_groups_from_snapshots [] = []"
| "get_resource_groups_from_snapshots (snapshot_id # snapshot_ids) =
     (let parts = parts_of snapshot_id;
          resource_groups = get_resource_groups_from_snapshots snapshot_ids
      in if length parts \<ge> 5 then List.insert (parts ! 2, parts ! 4) resource_groups
         else resource_groups)"

section \<open>The Validator\<close>

text \<open>
  An entry of a report list: a resource name, or a pair of a name or identifier and a
  reason.
\<close>

datatype entry = Name string | Pair string string

type_synonym results = "string \<rightharpoonup> (string \<rightharpoonup> entry list)"

definition check_snapshot_exists ::
  "variant \<Rightarrow> world \<Rightarrow> string \<Rightarrow> trace \<Rightarrow> (exn + bool) \<times> trace" where
  "check_snapshot_exists v w snapshot_id s =
     (case run_az_command v w (SnapshotShow snapshot_id) s of
        (Inl e, s') \<Rightarrow> (Inl e, s')
      | (Inr result, s') \<Rightarrow> (succeeded v result, s'))"

definition names_get :: "(string \<rightharpoonup> string) \<Rightarrow> string \<Rightarrow> string" where
  "names_get subscription_names subscription_id =
     (case subscription_names subscription_id of None \<Rightarrow> subscription_id | Some name \<Rightarrow> name)"

definition process_snapshot ::
  "variant \<Rightarrow> world \<Rightarrow> string \<Rightarrow> (string \<rightharpoonup> string) \<Rightarrow> trace
     \<Rightarrow> (string option \<times> string \<times> entry) \<times> trace" where
  "process_snapshot v w snapshot_id subscription_names s =
     (let parts = parts_of snapshot_id in
      if length parts < 9 then
        ((None, ''invalid'', Pair snapshot_id ''Invalid snapshot ID format''), s)
      else
        (let subscription_id = parts ! 2;
             subscription_name = names_get subscription_names subscription_id;
             snapshot_name = last parts
         in case check_snapshot_exists v w snapshot_id s of
              (Inl e, s') \<Rightarrow> ((None, ''error'', Pair snapshot_id (str_of w e)), s')
            | (Inr exists, s') \<Rightarrow>
                if \<not> exists then ((Some subscription_name, ''non-existent'', Name snapshot_name), s')
                else ((Some subscription_name, ''valid'', Name snapshot_name), s')))"

text \<open>
  The three statements that file an entry: create the account's dict when missing, create
  the status list when missing, append.
\<close>

definition file_entry :: "results \<Rightarrow> string \<Rightarrow> string \<Rightarrow> entry \<Rightarrow> results" where
  "file_entry results account status data =
     (let per_account = (case results account of None \<Rightarrow> Map.empty | Some d \<Rightarrow> d);
          listed = (case per_account status of None \<Rightarrow> [] | Some l \<Rightarrow> l)
      in results(account \<mapsto> per_account(status \<mapsto> listed @ [data])))"

fun validate_each ::
  "variant \<Rightarrow> world \<Rightarrow> (string \<rightharpoonup> string) \<Rightarrow> string list \<Rightarrow> string list \<Rightarrow> results \<Rightarrow> trace
     \<Rightarrow> (string list \<times> results) \<times> trace" where
  "validate_each v w subscription_names [] valid_snapshots results s =
     ((valid_snapshots, results), s)"
| "validate_each v w subscription_names (snapshot_id # rest) valid_snapshots results s =
     (case process_snapshot v w snapshot_id subscription_names s of
        ((subscription_name, status, data), s') \<Rightarrow>
          if truthy subscription_name then
            validate_each v w subscription_names rest
              (if status = ''valid'' then valid_snapshots @ [snapshot_id] else valid_snapshots)
              (file_entry results (the subscription_name) status data) s'
          else
            validate_each v w subscription_names rest valid_snapshots
              (file_entry results ''Unknown'' status data) s')"

definition pre_validate_snapshots ::
  "variant \<Rightarrow> world \<Rightarrow> string list \<Rightarrow> (string \<rightharpoonup> string) \<Rightarrow> trace
     \<Rightarrow> (string list \<times> results) \<times> trace" where
  "pre_validate_snapshots v w snapshot_ids subscription_names s =
     validate_each v w subscription_names snapshot_ids [] Map.empty s"

section \<open>The Lock Coordinator\<close>

type_synonym ledger = "(string \<times> string \<times> string) list"

text \<open>The inner loop of \<open>check_and_remove_scope_locks\<close>, over the locks of one group.\<close>

fun remove_each ::
  "variant \<Rightarrow> world \<Rightarrow> string \<Rightarrow> string \<Rightarrow> (string \<times> string) list \<Rightarrow> ledger \<Rightarrow> trace
     \<Rightarrow> (exn + ledger) \<times> trace" where
  "remove_each v w subscription_id resource_group [] removed_locks s = (Inr removed_locks, s)"
| "remove_each v w subscription_id resource_group ((name, level) # locks) removed_locks s =
     (if level = ''CanNotDelete'' then
        (case run_az_command v w (LockDelete name resource_group) s of
           (Inl e, s') \<Rightarrow> (Inl e, s')
         | (Inr result, s') \<Rightarrow>
             (case succeeded v result of
                Inl e \<Rightarrow> (Inl e, s')
              | Inr ok \<Rightarrow>
                  if ok then
                    remove_each v w subscription_id resource_group locks
                      (removed_locks @ [(subscription_id, resource_group, name)])
                      (tell (Removed_lock name resource_group) s')
                  else
                    remove_each v w subscription_id resource_group locks removed_locks
                      (tell (Remove_failed name resource_group) s')))
      else remove_each v w subscription_id resource_group locks removed_locks s)"

text \<open>The outer loop, over the resource groups in the order the set gives them.\<close>

fun suspend_each ::
  "variant \<Rightarrow> world \<Rightarrow> (string \<times> string) list \<Rightarrow> string option \<Rightarrow> ledger \<Rightarrow> trace
     \<Rightarrow> (exn + ledger) \<times> trace" where
  "suspend_each v w [] current_subscription removed_locks s = (Inr removed_locks, s)"
| "suspend_each v w ((subscription_id, resource_group) # rest) current_subscription removed_locks s =
     (case switch_subscription v w subscription_id current_subscription s of
        (Inl e, s1) \<Rightarrow> (Inl e, s1)
      | (Inr current, s1) \<Rightarrow>
          (case run_az_command v w (LockList resource_group) s1 of
             (Inl e, s2) \<Rightarrow> (Inl e, s2)
           | (Inr result, s2) \<Rightarrow>
               (case json_loads (decode_locks w) result of
                  Inl e \<Rightarrow> (Inl e, s2)
                | Inr locks \<Rightarrow>
                    (case remove_each v w subscription_id resource_group locks removed_locks s2 of
                       (Inl e, s3) \<Rightarrow> (Inl e, s3)
                     | (Inr removed, s3) \<Rightarrow> suspend_each v w rest current removed s3))))"

definition check_and_remove_scope_locks ::
  "variant \<Rightarrow> world \<Rightarrow> (string \<times> string) list \<Rightarrow> trace \<Rightarrow> (exn + ledger) \<times> trace" where
  "check_and_remove_scope_locks v w resource_groups s =
     suspend_each v w (visit w resource_groups) None [] s"

fun restore_each ::
  "variant \<Rightarrow> world \<Rightarrow> ledger \<Rightarrow> string option \<Rightarrow> ledger \<Rightarrow> trace \<Rightarrow> (exn + ledger) \<times> trace" where
  "restore_each v w [] current_subscription restored_locks s = (Inr restored_locks, s)"
| "restore_each v w ((subscription_id, resource_group, lock_name) # rest) current_subscription
       restored_locks s =
     (case switch_subscription v w subscription_id current_subscription s of
        (Inl e, s1) \<Rightarrow> (Inl e, s1)
      | (Inr current, s1) \<Rightarrow>
          (case run_az_command v w (LockCreate lock_name resource_group) s1 of
             (Inl e, s2) \<Rightarrow> (Inl e, s2)
           | (Inr result, s2) \<Rightarrow>
               (case succeeded v result of
                  Inl e \<Rightarrow> (Inl e, s2)
                | Inr ok \<Rightarrow>
                    if ok then
                      restore_each v w rest current
                        (restored_locks @ [(subscription_id, resource_group, lock_name)])
                        (tell (Restored_lock lock_name resource_group) s2)
                    else
                      restore_each v w rest current restored_locks
                        (tell (Restore_failed lock_name resource_group) s2))))"

definition restore_scope_locks ::
  "variant \<Rightarrow> world \<Rightarrow> ledger \<Rightarrow> trace \<Rightarrow> (exn + ledger) \<times> trace" where
  "restore_scope_locks v w removed_locks s = restore_each v w removed_locks None [] s"

section \<open>The Bulk Executor\<close>

definition delete_snapshot ::
  "variant \<Rightarrow> world \<Rightarrow> string \<Rightarrow> trace \<Rightarrow> (exn + bool) \<times> trace" where
  "delete_snapshot v w snapshot_id s =
     (case run_az_command v w (SnapshotDelete snapshot_id) s of
        (Inl e, s') \<Rightarrow> (Inl e, s')
      | (Inr result, s') \<Rightarrow> (succeeded v result, s'))"

text \<open>
  The loop of \<open>delete_valid_snapshots\<close>. \<open>parts[2]\<close> raises \<open>IndexError\<close> on an identifier
  with fewer than three parts; nothing in the loop catches an exception.
\<close>

fun delete_each ::
  "variant \<Rightarrow> world \<Rightarrow> (string \<rightharpoonup> string) \<Rightarrow> string list \<Rightarrow> results \<Rightarrow> trace
     \<Rightarrow> (exn + results) \<times> trace" where
  "delete_each v w subscription_names [] results s = (Inr results, s)"
| "delete_each v w subscription_names (snapshot_id # rest) results s =
     (let parts = parts_of snapshot_id in
      if length parts \<le> 2 then (Inl IndexError, s)
      else
        (let subscription_id = parts ! 2;
             subscription_name = names_get subscription_names subscription_id;
             snapshot_name = last parts
         in case delete_snapshot v w snapshot_id s of
              (Inl e, s') \<Rightarrow> (Inl e, s')
            | (Inr success, s') \<Rightarrow>
                if success then
                  delete_each v w subscription_names rest
                    (file_entry results subscription_name ''deleted'' (Name snapshot_name)) s'
                else
                  delete_each v w subscription_names rest
                    (file_entry results subscription_name ''failed''
                       (Pair snapshot_name ''Deletion failed'')) s'))"

definition delete_valid_snapshots ::
  "variant \<Rightarrow> world \<Rightarrow> string list \<Rightarrow> (string \<rightharpoonup> string) \<Rightarrow> trace \<Rightarrow> (exn + results) \<times> trace" where
  "delete_valid_snapshots v w valid_snapshots subscription_names s =
     delete_each v w subscription_names valid_snapshots Map.empty s"

section \<open>The Workflow Coordinator\<close>

text \<open>
  The merge loop of \<open>main\<close>: for every account of the deletion results, \<open>dict.update\<close>
  into the account's validation dict when there is one, the deletion dict itself
  otherwise. \<open>dict.update\<close> is \<open>++\<close>: on a shared key the right-hand value stays.
\<close>

definition merge_results :: "results \<Rightarrow> results \<Rightarrow> results" where
  "merge_results pre_validation_results deletion_results =
     (\<lambda>subscription.
        case deletion_results subscription of
          None \<Rightarrow> pre_validation_results subscription
        | Some data \<Rightarrow>
            (case pre_validation_results subscription of
               None \<Rightarrow> Some data
             | Some validated \<Rightarrow> Some (validated ++ data)))"

text \<open>
  \<open>generate_log_file\<close>: \<open>os.makedirs\<close> is outside the \<open>try\<close>, so its exception leaves
  the function; a failure to write is caught and gives \<open>None\<close>.
\<close>

definition generate_log_file :: "world \<Rightarrow> results \<Rightarrow> real \<Rightarrow> trace \<Rightarrow> exn + string option" where
  "generate_log_file w results total_runtime s =
     (case makedirs w (calls s) of
        Some e \<Rightarrow> Inl e
      | None \<Rightarrow> Inr (written w (calls s)))"

datatype pyval = VStr string | VNone | VFloat real | VResults results

type_synonym response = "(string \<times> pyval) list"

definition not_logged_in :: string where
  "not_logged_in = ''Not logged in to Azure. Please run 'az login'.''"

text \<open>The \<open>else\<close> branch of \<open>main\<close>: suspend, delete, restore, merge.\<close>

definition locked_deletion ::
  "variant \<Rightarrow> world \<Rightarrow> string list \<Rightarrow> (string \<rightharpoonup> string) \<Rightarrow> results \<Rightarrow> trace
     \<Rightarrow> (exn + results) \<times> trace" where
  "locked_deletion v w valid_snapshots subscription_names pre_validation_results s =
     (let resource_groups = get_resource_groups_from_snapshots valid_snapshots in
      case check_and_remove_scope_locks v w resource_groups s of
        (Inl e, s1) \<Rightarrow> (Inl e, s1)
      | (Inr removed_locks, s1) \<Rightarrow>
          (case delete_valid_snapshots v w valid_snapshots subscription_names s1 of
             (Inl e, s2) \<Rightarrow> (Inl e, s2)
           | (Inr deletion_results, s2) \<Rightarrow>
               (case restore_scope_locks v w removed_locks s2 of
                  (Inl e, s3) \<Rightarrow> (Inl e, s3)
                | (Inr restored_locks, s3) \<Rightarrow>
                    (Inr (merge_results pre_validation_results deletion_results), s3))))"

text \<open>The body of the \<open>try\<close> of \<open>main\<close> (Sequential) and of \<open>delete_snapshots\<close> (Cooperative).\<close>

definition main_try ::
  "variant \<Rightarrow> world \<Rightarrow> string list \<Rightarrow> trace \<Rightarrow> (exn + response) \<times> trace" where
  "main_try v w snapshot_ids s =
     (case check_az_login v w s of
        (False, s1) \<Rightarrow> (Inr [(''error'', VStr not_logged_in)], s1)
      | (True, s1) \<Rightarrow>
          (case get_subscription_names v w s1 of
             (Inl e, s2) \<Rightarrow> (Inl e, s2)
           | (Inr subscription_names, s2) \<Rightarrow>
               (case pre_validate_snapshots v w snapshot_ids subscription_names s2 of
                  ((valid_snapshots, pre_validation_results), s3) \<Rightarrow>
                    (case (if valid_snapshots = [] then (Inr pre_validation_results, s3)
                           else locked_deletion v w valid_snapshots subscription_names
                                  pre_validation_results s3) of
                       (Inl e, s4) \<Rightarrow> (Inl e, s4)
                     | (Inr results, s4) \<Rightarrow>
                         (let total_runtime = now w (calls s4) - now w (calls s1) in
                          case generate_log_file w results total_runtime s4 of
                            Inl e \<Rightarrow> (Inl e, s4)
                          | Inr log_filename \<Rightarrow>
                              (Inr [(''results'', VResults results),
                                    (''log_file'',
                                     (case log_filename of None \<Rightarrow> VNone | Some f \<Rightarrow> VStr f)),
                                    (''total_runtime'', VFloat total_runtime)], s4))))))"

text \<open>\<open>main\<close>: every exception of the body becomes the dict with the key \<open>error\<close>.\<close>

definition main :: "variant \<Rightarrow> world \<Rightarrow> string list \<Rightarrow> response \<times> trace" where
  "main v w snapshot_ids =
     (case main_try v w snapshot_ids start of
        (Inl e, s) \<Rightarrow> ([(''error'', VStr (str_of w e))], s)
      | (Inr response, s) \<Rightarrow> (response, s))"

section \<open>Vocabulary of the statements\<close>

text \<open>A command was answered with success: return code 0 and no \<open>Error:\<close> text.\<close>

definition answered_ok :: "world \<Rightarrow> command list \<Rightarrow> command \<Rightarrow> bool" where
  "answered_ok w history command =
     (case respond w history command of
        Exit0 out \<Rightarrow> \<not> startswith_Error out
      | ExitFail err \<Rightarrow> False
      | Crash e \<Rightarrow> False)"

fun is_lock_list :: "command \<Rightarrow> bool" where
  "is_lock_list (LockList _) = True"
| "is_lock_list _ = False"

fun is_lock_create :: "command \<Rightarrow> bool" where
  "is_lock_create (LockCreate _ _) = True"
| "is_lock_create _ = False"


text \<open>The mutating client calls: lock delete, lock create, resource delete.\<close>

fun mutating :: "command \<Rightarrow> bool" where
  "mutating (LockDelete _ _) = True"
| "mutating (LockCreate _ _) = True"
| "mutating (SnapshotDelete _) = True"
| "mutating _ = False"

fun suspend_call :: "command \<Rightarrow> bool" where
  "suspend_call (AccountSet _) = True"
| "suspend_call (LockList _) = True"
| "suspend_call (LockDelete _ _) = True"
| "suspend_call _ = False"

fun restore_call :: "command \<Rightarrow> bool" where
  "restore_call (AccountSet _) = True"
| "restore_call (LockCreate _ _) = True"
| "restore_call _ = False"

text \<open>An account switch that does not raise.\<close>

definition switch_ok :: "variant \<Rightarrow> world \<Rightarrow> command list \<Rightarrow> string \<Rightarrow> bool" where
  "switch_ok v w history subscription =
     (case respond w history (AccountSet subscription) of
        ExitFail err \<Rightarrow> v = Cooperative
      | Exit0 out \<Rightarrow> True
      | Crash e \<Rightarrow> True)"

fun is_lock_delete :: "command \<Rightarrow> bool" where
  "is_lock_delete (LockDelete _ _) = True"
| "is_lock_delete _ = False"

definition well_formed :: "string \<Rightarrow> bool" where
  "well_formed snapshot_id = (9 \<le> length (parts_of snapshot_id))"

definition lock_create_of :: "string \<times> string \<times> string \<Rightarrow> command" where
  "lock_create_of = (\<lambda>(subscription_id, resource_group, lock_name). LockCreate lock_name resource_group)"

definition lock_of :: "string \<times> string \<times> string \<Rightarrow> string \<times> string" where
  "lock_of = (\<lambda>(subscription_id, resource_group, lock_name). (lock_name, resource_group))"

fun removed_of :: "logline list \<Rightarrow> (string \<times> string) list" where
  "removed_of [] = []"
| "removed_of (Removed_lock name resource_group # ls) = (name, resource_group) # removed_of ls"
| "removed_of (_ # ls) = removed_of ls"

fun restored_of :: "logline list \<Rightarrow> (string \<times> string) list" where
  "restored_of [] = []"
| "restored_of (Restored_lock name resource_group # ls) = (name, resource_group) # restored_of ls"
| "restored_of (_ # ls) = restored_of ls"

fun orphaned_of :: "logline list \<Rightarrow> (string \<times> string) list" where
  "orphaned_of [] = []"
| "orphaned_of (Restore_failed name resource_group # ls) = (name, resource_group) # orphaned_of ls"
| "orphaned_of (_ # ls) = orphaned_of ls"

section \<open>Scenarios\<close>

text \<open>
  Concrete identifiers and worlds on which the statements below are exercised. The
  identifiers have the nine parts of a snapshot resource id; \<open>snap_a\<close> and \<open>snap_b\<close>
  share the account \<open>111\<close> and the resource group \<open>rg1\<close>.
\<close>

definition snap_a :: string where
  "snap_a = ''/subscriptions/111/resourceGroups/rg1/providers/Microsoft.Compute/snapshots/snap-a''"

definition snap_b :: string where
  "snap_b = ''/subscriptions/111/resourceGroups/rg1/providers/Microsoft.Compute/snapshots/snap-b''"

definition snap_c :: string where
  "snap_c = ''/subscriptions/222/resourceGroups/rg2/providers/Microsoft.Compute/snapshots/snap-c''"

definition lock_listing :: string where
  \<open>lock_listing = ''[{"name": "lockA", "level": "CanNotDelete"}]''\<close>

fun describe :: "exn \<Rightarrow> string" where
  "describe (CalledProcessError c) = ''Command returned non-zero exit status 1.''"
| "describe JSONDecodeError = ''Expecting value: line 1 column 1 (char 0)''"
| "describe TypeError = ''the JSON object must be str, bytes or bytearray, not NoneType''"
| "describe AttributeError = ''NoneType object has no attribute startswith''"
| "describe IndexError = ''list index out of range''"
| "describe (OSError text) = text"

text \<open>
  A world in which the commands selected by \<open>failing\<close> end with a non-zero return code
  and all the others succeed; every resource group carries the one lock \<open>lockA\<close> at the
  level \<open>CanNotDelete\<close>, and no account has a display name.
\<close>

definition answers :: "(command list \<Rightarrow> command \<Rightarrow> bool) \<Rightarrow> command list \<Rightarrow> command \<Rightarrow> proc" where
  "answers failing history command =
     (if failing history command then ExitFail ''AuthorizationFailed''
      else (case command of
              AccountShow \<Rightarrow> Exit0 ''{}''
            | AccountList \<Rightarrow> Exit0 ''[]''
            | LockList resource_group \<Rightarrow> Exit0 lock_listing
            | _ \<Rightarrow> Exit0 ''done''))"

definition world_where :: "(command list \<Rightarrow> command \<Rightarrow> bool) \<Rightarrow> world" where
  "world_where failing =
     \<lparr>respond = answers failing,
      decode_accounts = (\<lambda>text. if text = ''[]'' then Some [] else None),
      decode_locks =
        (\<lambda>text. if text = lock_listing then Some [(''lockA'', ''CanNotDelete'')] else None),
      visit = (\<lambda>pairs. pairs),
      makedirs = (\<lambda>history. None),
      written = (\<lambda>history. Some ''logs/snapshot_deletion_log.txt''),
      now = (\<lambda>history. real (length history)),
      str_of = describe\<rparr>"


fun is_snapshot_show :: "command \<Rightarrow> bool" where
  "is_snapshot_show (SnapshotShow _) = True"
| "is_snapshot_show _ = False"

text \<open>Every command succeeds.\<close>

definition quiet :: world where
  "quiet = world_where (\<lambda>history command. False)"

text \<open>Every existence check is refused.\<close>

definition denied :: world where
  "denied = world_where (\<lambda>history command. is_snapshot_show command)"



text \<open>Every lock listing fails.\<close>

definition listing_fails :: world where
  "listing_fails = world_where (\<lambda>history command. is_lock_list command)"

text \<open>A lock listing fails once another lock listing has been answered.\<close>

definition second_listing_fails :: world where
  "second_listing_fails =
     world_where (\<lambda>history command. is_lock_list command \<and> list_ex is_lock_list history)"


text \<open>The creation of the lock \<open>lockA\<close> fails.\<close>

definition create_fails :: world where
  "create_fails = world_where (\<lambda>history command. command = LockCreate ''lockA'' ''rg1'')"

section \<open>How the phases extend the trace\<close>

lemma calls_issue [simp]: "calls (issue c s) = calls s @ [c]" "messages (issue c s) = messages s"
  by (simp_all add: issue_def)

lemma messages_tell [simp]: "calls (tell l s) = calls s" "messages (tell l s) = messages s @ [l]"
  by (simp_all add: tell_def)

lemma run_string:
  "\<not> is_list_command c \<Longrightarrow>
   \<exists>result. run_az_command v w c s = (Inr result, issue c s)
     \<and> succeeded v result = Inr (answered_ok w (calls s) c)"
  by (cases v) (auto simp: run_az_command_def answered_ok_def startswith_Error_def split: proc.splits)

lemma check_snapshot_exists_eq:
  "check_snapshot_exists v w i s = (Inr (answered_ok w (calls s) (SnapshotShow i)), issue (SnapshotShow i) s)"
  using run_string [of "SnapshotShow i" v w s] by (auto simp: check_snapshot_exists_def)

lemma delete_snapshot_eq:
  "delete_snapshot v w i s = (Inr (answered_ok w (calls s) (SnapshotDelete i)), issue (SnapshotDelete i) s)"
  using run_string [of "SnapshotDelete i" v w s] by (auto simp: delete_snapshot_def)

lemma process_snapshot_short:
  "\<not> well_formed i \<Longrightarrow>
   process_snapshot v w i names s = ((None, ''invalid'', Pair i ''Invalid snapshot ID format''), s)"
  by (simp add: process_snapshot_def well_formed_def)

lemma process_snapshot_long:
  "well_formed i \<Longrightarrow>
   process_snapshot v w i names s =
     ((Some (names_get names (parts_of i ! 2)),
       (if answered_ok w (calls s) (SnapshotShow i) then ''valid'' else ''non-existent''),
       Name (last (parts_of i))),
      issue (SnapshotShow i) s)"
  by (simp add: process_snapshot_def well_formed_def check_snapshot_exists_eq Let_def)

lemma validate_each_trace:
  "calls (snd (validate_each v w names ids valid results s))
     = calls s @ map SnapshotShow (filter well_formed ids)
   \<and> messages (snd (validate_each v w names ids valid results s)) = messages s"
proof (induction ids arbitrary: valid results s)
  case Nil
  then show ?case by simp
next
  case (Cons i ids)
  show ?case
  proof (cases "well_formed i")
    case True
    then show ?thesis using Cons by (simp add: process_snapshot_long)
  next
    case False
    then show ?thesis using Cons by (simp add: process_snapshot_short)
  qed
qed

lemma validate_each_valid:
  "\<exists>more. fst (fst (validate_each v w names ids valid results s)) = valid @ more
     \<and> set more \<subseteq> {i \<in> set ids. well_formed i}"
proof (induction ids arbitrary: valid results s)
  case Nil
  then show ?case by simp
next
  case (Cons i ids)
  show ?case
  proof (cases "well_formed i")
    case True
    let ?st = "(if answered_ok w (calls s) (SnapshotShow i) then ''valid'' else ''non-existent'')"
    let ?v = "(if ?st = ''valid'' then valid @ [i] else valid)"
    show ?thesis
    proof (cases "names_get names (parts_of i ! 2) = []")
      case e: True
      obtain more where "fst (fst (validate_each v w names ids valid
          (file_entry results ''Unknown'' ?st (Name (last (parts_of i)))) (issue (SnapshotShow i) s))) = valid @ more"
        "set more \<subseteq> {i \<in> set ids. well_formed i}" using Cons by blast
      then show ?thesis using True e by (auto simp: process_snapshot_long)
    next
      case ne: False
      obtain more where m: "fst (fst (validate_each v w names ids ?v
          (file_entry results (names_get names (parts_of i ! 2)) ?st (Name (last (parts_of i)))) (issue (SnapshotShow i) s))) = ?v @ more"
        "set more \<subseteq> {i \<in> set ids. well_formed i}" using Cons by blast
      show ?thesis
      proof (cases "answered_ok w (calls s) (SnapshotShow i)")
        case True
        with m have "fst (fst (validate_each v w names (i # ids) valid results s)) = valid @ (i # more)"
          using \<open>well_formed i\<close> ne by (simp add: process_snapshot_long)
        moreover have "set (i # more) \<subseteq> {j \<in> set (i # ids). well_formed j}"
          using m(2) \<open>well_formed i\<close> by auto
        ultimately show ?thesis by blast
      next
        case False
        with m have "fst (fst (validate_each v w names (i # ids) valid results s)) = valid @ more"
          using \<open>well_formed i\<close> ne by (simp add: process_snapshot_long)
        moreover have "set more \<subseteq> {j \<in> set (i # ids). well_formed j}"
          using m(2) by auto
        ultimately show ?thesis by blast
      qed
    qed
  next
    case False
    obtain more where "fst (fst (validate_each v w names ids valid
          (file_entry results ''Unknown'' ''invalid'' (Pair i ''Invalid snapshot ID format'')) s)) = valid @ more"
        "set more \<subseteq> {i \<in> set ids. well_formed i}" using Cons by blast
    then show ?thesis using False by (auto simp: process_snapshot_short)
  qed
qed

lemma switch_subscription_eq:
  "switch_subscription v w subscription current s =
     (if Some subscription \<noteq> current then
        (if switch_ok v w (calls s) subscription
         then (Inr (Some subscription), issue (AccountSet subscription) s)
         else (Inl (CalledProcessError (AccountSet subscription)), issue (AccountSet subscription) s))
      else (Inr current, s))"
  by (cases v)
     (simp_all add: switch_subscription_def switch_ok_def run_az_command_def split: proc.splits)

lemma remove_each_Cons:
  "remove_each v w a g ((n, l) # locks) removed s =
     (if l = ''CanNotDelete'' then
        (if answered_ok w (calls s) (LockDelete n g)
         then remove_each v w a g locks (removed @ [(a, g, n)])
                (tell (Removed_lock n g) (issue (LockDelete n g) s))
         else remove_each v w a g locks removed
                (tell (Remove_failed n g) (issue (LockDelete n g) s)))
      else remove_each v w a g locks removed s)"
  using run_string [of "LockDelete n g" v w s] by auto

declare remove_each.simps(2) [simp del]

lemma removed_of_append: "removed_of (xs @ ys) = removed_of xs @ removed_of ys"
  by (induction xs rule: removed_of.induct) simp_all

lemma restored_of_append: "restored_of (xs @ ys) = restored_of xs @ restored_of ys"
  by (induction xs rule: restored_of.induct) simp_all

lemma orphaned_of_append: "orphaned_of (xs @ ys) = orphaned_of xs @ orphaned_of ys"
  by (induction xs rule: orphaned_of.induct) simp_all

lemma remove_each_trace:
  "\<exists>new cs ms. remove_each v w a g locks removed s = (Inr (removed @ new), s')
      \<and> calls s' = calls s @ cs \<and> messages s' = messages s @ ms
      \<and> (\<forall>c \<in> set cs. is_lock_delete c)
      \<and> map lock_of new = removed_of ms \<and> restored_of ms = [] \<and> orphaned_of ms = []"
  if "s' = snd (remove_each v w a g locks removed s)"
  using that
proof (induction locks arbitrary: removed s)
  case Nil
  then show ?case by simp
next
  case (Cons lock locks)
  obtain n l where lock: "lock = (n, l)" by (cases lock)
  show ?case
  proof (cases "l = ''CanNotDelete''")
    case False
    then show ?thesis using Cons lock by (simp add: remove_each_Cons)
  next
    case True
    let ?s1 = "issue (LockDelete n g) s"
    show ?thesis
    proof (cases "answered_ok w (calls s) (LockDelete n g)")
      case ok: True
      let ?s2 = "tell (Removed_lock n g) ?s1"
      have eq: "remove_each v w a g (lock # locks) removed s
                = remove_each v w a g locks (removed @ [(a, g, n)]) ?s2"
        using True ok lock by (simp add: remove_each_Cons)
      with Cons.prems have "s' = snd (remove_each v w a g locks (removed @ [(a, g, n)]) ?s2)"
        by simp
      from Cons.IH [OF this] obtain new cs ms where
        h: "remove_each v w a g locks (removed @ [(a, g, n)]) ?s2 = (Inr ((removed @ [(a, g, n)]) @ new), s')"
           "calls s' = calls ?s2 @ cs" "messages s' = messages ?s2 @ ms"
           "\<forall>c \<in> set cs. is_lock_delete c"
           "map lock_of new = removed_of ms" "restored_of ms = []" "orphaned_of ms = []"
        by blast
      have "remove_each v w a g (lock # locks) removed s = (Inr (removed @ ((a, g, n) # new)), s')"
        using eq h(1) by simp
      moreover have "calls s' = calls s @ (LockDelete n g # cs)" using h(2) by simp
      moreover have "messages s' = messages s @ (Removed_lock n g # ms)" using h(3) by simp
      moreover have "\<forall>c \<in> set (LockDelete n g # cs). is_lock_delete c" using h(4) by simp
      moreover have "map lock_of ((a, g, n) # new) = removed_of (Removed_lock n g # ms)"
        using h(5) by (simp add: lock_of_def)
      moreover have "restored_of (Removed_lock n g # ms) = []" "orphaned_of (Removed_lock n g # ms) = []"
        using h(6,7) by simp_all
      ultimately show ?thesis by blast
    next
      case no: False
      let ?s2 = "tell (Remove_failed n g) ?s1"
      have eq: "remove_each v w a g (lock # locks) removed s
                = remove_each v w a g locks removed ?s2"
        using True no lock by (simp add: remove_each_Cons)
      with Cons.prems have "s' = snd (remove_each v w a g locks removed ?s2)"
        by simp
      from Cons.IH [OF this] obtain new cs ms where
        h: "remove_each v w a g locks removed ?s2 = (Inr (removed @ new), s')"
           "calls s' = calls ?s2 @ cs" "messages s' = messages ?s2 @ ms"
           "\<forall>c \<in> set cs. is_lock_delete c"
           "map lock_of new = removed_of ms" "restored_of ms = []" "orphaned_of ms = []"
        by blast
      have "remove_each v w a g (lock # locks) removed s = (Inr (removed @ new), s')"
        using eq h(1) by simp
      moreover have "calls s' = calls s @ (LockDelete n g # cs)" using h(2) by simp
      moreover have "messages s' = messages s @ (Remove_failed n g # ms)" using h(3) by simp
      moreover have "\<forall>c \<in> set (LockDelete n g # cs). is_lock_delete c" using h(4) by simp
      moreover have "map lock_of new = removed_of (Remove_failed n g # ms)"
        using h(5) by simp
      moreover have "restored_of (Remove_failed n g # ms) = []" "orphaned_of (Remove_failed n g # ms) = []"
        using h(6,7) by simp_all
      ultimately show ?thesis by blast
    qed
  qed
qed

lemma switch_trace:
  assumes "switch_subscription v w a cur s = (r, s1)"
  shows "\<exists>sw. calls s1 = calls s @ sw \<and> messages s1 = messages s \<and> (sw = [] \<or> sw = [AccountSet a])"
  using assms by (auto simp: switch_subscription_eq split: if_splits)

lemma lock_delete_is_suspend_call: "is_lock_delete c \<Longrightarrow> suspend_call c \<and> \<not> is_lock_list c"
  by (cases c) simp_all

lemma suspend_each_trace:
  assumes "suspend_each v w rgs cur removed s = (r, s')"
  shows "\<exists>cs ms. calls s' = calls s @ cs \<and> messages s' = messages s @ ms
      \<and> (\<forall>c \<in> set cs. suspend_call c)
      \<and> restored_of ms = [] \<and> orphaned_of ms = []
      \<and> prefix (filter is_lock_list cs) (map (LockList \<circ> snd) rgs)
      \<and> (\<forall>removed'. r = Inr removed' \<longrightarrow>
            filter is_lock_list cs = map (LockList \<circ> snd) rgs
            \<and> (\<exists>new. removed' = removed @ new \<and> map lock_of new = removed_of ms))"
  using assms
proof (induction rgs arbitrary: cur removed s)
  case Nil
  then show ?case by auto
next
  case (Cons rg rest)
  obtain a g where rg: "rg = (a, g)" by (cases rg)
  obtain r1 s1 where sw: "switch_subscription v w a cur s = (r1, s1)" by fastforce
  from switch_trace [OF sw] obtain sw_cs where
    s1: "calls s1 = calls s @ sw_cs" "messages s1 = messages s" "sw_cs = [] \<or> sw_cs = [AccountSet a]"
    by blast
  have sw_ok: "\<forall>c \<in> set sw_cs. suspend_call c" "filter is_lock_list sw_cs = []"
    using s1(3) by auto
  show ?case
  proof (cases r1)
    case (Inl e)
    then have "r = Inl e" "s' = s1" using Cons.prems rg sw by auto
    then have c: "calls s' = calls s @ sw_cs" and m: "messages s' = messages s @ []"
      using s1 by auto
    have p: "prefix (filter is_lock_list sw_cs) (map (LockList \<circ> snd) (rg # rest))"
      using sw_ok(2) by simp
    have n: "\<forall>removed'. r = Inr removed' \<longrightarrow>
            filter is_lock_list sw_cs = map (LockList \<circ> snd) (rg # rest)
            \<and> (\<exists>new. removed' = removed @ new \<and> map lock_of new = removed_of [])"
      using \<open>r = Inl e\<close> by simp
    have z: "restored_of [] = []" "orphaned_of [] = []" by simp_all
    show ?thesis by (intro exI conjI) (rule c m sw_ok(1) z p n)+
  next
    case (Inr current)
    let ?s2 = "issue (LockList g) s1"
    obtain result where run: "run_az_command v w (LockList g) s1 = (Inr result, ?s2)"
      using run_string [of "LockList g" v w s1] by auto
    show ?thesis
    proof (cases "json_loads (decode_locks w) result")
      case bad: (Inl e)
      then have "r = Inl e" "s' = ?s2" using Cons.prems rg sw Inr run by auto
      then have c: "calls s' = calls s @ (sw_cs @ [LockList g])"
        and m: "messages s' = messages s @ []"
        using s1 by auto
      have k: "\<forall>c \<in> set (sw_cs @ [LockList g]). suspend_call c" using sw_ok by auto
      have p: "prefix (filter is_lock_list (sw_cs @ [LockList g])) (map (LockList \<circ> snd) (rg # rest))"
        using sw_ok rg by simp
      have n: "\<forall>removed'. r = Inr removed' \<longrightarrow>
            filter is_lock_list (sw_cs @ [LockList g]) = map (LockList \<circ> snd) (rg # rest)
            \<and> (\<exists>new. removed' = removed @ new \<and> map lock_of new = removed_of [])"
        using \<open>r = Inl e\<close> by simp
      have z: "restored_of [] = []" "orphaned_of [] = []" by simp_all
      show ?thesis by (intro exI conjI) (rule c m k z p n)+
    next
      case good: (Inr locks)
      obtain s3 where s3: "s3 = snd (remove_each v w a g locks removed ?s2)" by simp
      from remove_each_trace [OF this] obtain new cs3 ms3 where
        rm: "remove_each v w a g locks removed ?s2 = (Inr (removed @ new), s3)"
            "calls s3 = calls ?s2 @ cs3" "messages s3 = messages ?s2 @ ms3"
            "\<forall>c \<in> set cs3. is_lock_delete c"
            "map lock_of new = removed_of ms3" "restored_of ms3 = []" "orphaned_of ms3 = []"
        by blast
      have rest: "suspend_each v w rest current (removed @ new) s3 = (r, s')"
        using Cons.prems rg sw Inr run good rm(1) by simp
      from Cons.IH [OF this] obtain cs ms where
        ih: "calls s' = calls s3 @ cs" "messages s' = messages s3 @ ms"
            "\<forall>c \<in> set cs. suspend_call c" "restored_of ms = []" "orphaned_of ms = []"
            "prefix (filter is_lock_list cs) (map (LockList \<circ> snd) rest)"
            "\<forall>removed'. r = Inr removed' \<longrightarrow>
               filter is_lock_list cs = map (LockList \<circ> snd) rest
               \<and> (\<exists>more. removed' = (removed @ new) @ more \<and> map lock_of more = removed_of ms)"
        by blast
      let ?cs = "sw_cs @ [LockList g] @ cs3 @ cs"
      let ?ms = "ms3 @ ms"
      have no_list: "filter is_lock_list cs3 = []"
        using rm(4) lock_delete_is_suspend_call by (auto simp: filter_empty_conv)
      have c: "calls s' = calls s @ ?cs" using ih(1) rm(2) s1(1) by simp
      have m: "messages s' = messages s @ ?ms" using ih(2) rm(3) s1(2) by simp
      have k: "\<forall>c \<in> set ?cs. suspend_call c"
        using sw_ok(1) rm(4) ih(3) lock_delete_is_suspend_call by auto
      have z: "restored_of ?ms = []" "orphaned_of ?ms = []"
        using rm(6,7) ih(4,5) by (simp_all add: restored_of_append orphaned_of_append)
      have p: "prefix (filter is_lock_list ?cs) (map (LockList \<circ> snd) (rg # rest))"
        using sw_ok(2) no_list ih(6) rg by simp
      have n: "\<forall>removed'. r = Inr removed' \<longrightarrow>
            filter is_lock_list ?cs = map (LockList \<circ> snd) (rg # rest)
            \<and> (\<exists>more. removed' = removed @ more \<and> map lock_of more = removed_of ?ms)"
      proof (intro allI impI)
        fix removed' assume "r = Inr removed'"
        with ih(7) obtain more where
          m: "filter is_lock_list cs = map (LockList \<circ> snd) rest"
             "removed' = (removed @ new) @ more" "map lock_of more = removed_of ms"
          by blast
        have "filter is_lock_list ?cs = map (LockList \<circ> snd) (rg # rest)"
          using sw_ok(2) no_list m(1) rg by simp
        moreover have "removed' = removed @ (new @ more)" using m(2) by simp
        moreover have "map lock_of (new @ more) = removed_of ?ms"
          using m(3) rm(5) by (simp add: removed_of_append)
        ultimately show "filter is_lock_list ?cs = map (LockList \<circ> snd) (rg # rest)
            \<and> (\<exists>more. removed' = removed @ more \<and> map lock_of more = removed_of ?ms)"
          by blast
      qed
      show ?thesis by (intro exI conjI) (rule c m k z p n)+
    qed
  qed
qed

lemma restore_each_Cons:
  "restore_each v w ((a, g, n) # rest) cur restored s =
     (case switch_subscription v w a cur s of
        (Inl e, s1) \<Rightarrow> (Inl e, s1)
      | (Inr current, s1) \<Rightarrow>
          if answered_ok w (calls s1) (LockCreate n g)
          then restore_each v w rest current (restored @ [(a, g, n)])
                 (tell (Restored_lock n g) (issue (LockCreate n g) s1))
          else restore_each v w rest current restored
                 (tell (Restore_failed n g) (issue (LockCreate n g) s1)))"
proof (cases "switch_subscription v w a cur s")
  case (Pair r1 s1)
  show ?thesis
  proof (cases r1)
    case (Inl e)
    then show ?thesis using Pair by simp
  next
    case (Inr current)
    then show ?thesis
      using Pair run_string [of "LockCreate n g" v w s1] by auto
  qed
qed

declare restore_each.simps(2) [simp del]

lemma restore_each_trace:
  assumes "restore_each v w ledger cur restored s = (r, s')"
  shows "\<exists>cs ms. calls s' = calls s @ cs \<and> messages s' = messages s @ ms
      \<and> (\<forall>c \<in> set cs. restore_call c)
      \<and> removed_of ms = []
      \<and> prefix (filter is_lock_create cs) (map lock_create_of ledger)
      \<and> (\<forall>e. r = Inl e \<longrightarrow> v = Sequential)
      \<and> (\<forall>restored'. r = Inr restored' \<longrightarrow>
            filter is_lock_create cs = map lock_create_of ledger
            \<and> (\<exists>new. restored' = restored @ new \<and> map lock_of new = restored_of ms)
            \<and> mset (restored_of ms) + mset (orphaned_of ms) = mset (map lock_of ledger))"
  using assms
proof (induction ledger arbitrary: cur restored s)
  case Nil
  then show ?case by auto
next
  case (Cons entry rest)
  obtain a g n where entry: "entry = (a, g, n)" by (cases entry)
  obtain r1 s1 where sw: "switch_subscription v w a cur s = (r1, s1)" by fastforce
  from switch_trace [OF sw] obtain sw_cs where
    s1: "calls s1 = calls s @ sw_cs" "messages s1 = messages s" "sw_cs = [] \<or> sw_cs = [AccountSet a]"
    by blast
  have sw_ok: "\<forall>c \<in> set sw_cs. restore_call c" "filter is_lock_create sw_cs = []"
    using s1(3) by auto
  show ?case
  proof (cases r1)
    case (Inl e)
    then have r: "r = Inl e" "s' = s1" using Cons.prems entry sw by (auto simp: restore_each_Cons)
    have seq: "v = Sequential"
      using sw Inl by (cases v) (auto simp: switch_subscription_eq switch_ok_def split: if_splits proc.splits)
    have c: "calls s' = calls s @ sw_cs" and m: "messages s' = messages s @ []"
      using s1 r by auto
    have p: "prefix (filter is_lock_create sw_cs) (map lock_create_of (entry # rest))"
      using sw_ok(2) by simp
    have q: "\<forall>e. r = Inl e \<longrightarrow> v = Sequential" using seq by simp
    have n: "\<forall>restored'. r = Inr restored' \<longrightarrow>
            filter is_lock_create sw_cs = map lock_create_of (entry # rest)
            \<and> (\<exists>new. restored' = restored @ new \<and> map lock_of new = restored_of [])
            \<and> mset (restored_of []) + mset (orphaned_of []) = mset (map lock_of (entry # rest))"
      using r by simp
    have z: "removed_of [] = []" by simp
    show ?thesis by (intro exI conjI) (rule c m sw_ok(1) z p q n)+
  next
    case (Inr current)
    let ?ok = "answered_ok w (calls s1) (LockCreate n g)"
    let ?line = "if ?ok then Restored_lock n g else Restore_failed n g"
    let ?acc = "if ?ok then restored @ [(a, g, n)] else restored"
    let ?s2 = "tell ?line (issue (LockCreate n g) s1)"
    have rest: "restore_each v w rest current ?acc ?s2 = (r, s')"
      using Cons.prems entry sw Inr by (auto simp: restore_each_Cons split: if_splits)
    from Cons.IH [OF this] obtain cs ms where
      ih: "calls s' = calls ?s2 @ cs" "messages s' = messages ?s2 @ ms"
          "\<forall>c \<in> set cs. restore_call c" "removed_of ms = []"
          "prefix (filter is_lock_create cs) (map lock_create_of rest)"
          "\<forall>e. r = Inl e \<longrightarrow> v = Sequential"
          "\<forall>restored'. r = Inr restored' \<longrightarrow>
             filter is_lock_create cs = map lock_create_of rest
             \<and> (\<exists>more. restored' = ?acc @ more \<and> map lock_of more = restored_of ms)
             \<and> mset (restored_of ms) + mset (orphaned_of ms) = mset (map lock_of rest)"
      by blast
    let ?cs = "sw_cs @ [LockCreate n g] @ cs"
    let ?ms = "?line # ms"
    have c: "calls s' = calls s @ ?cs" using ih(1) s1(1) by simp
    have m: "messages s' = messages s @ ?ms" using ih(2) s1(2) by simp
    have k: "\<forall>c \<in> set ?cs. restore_call c" using sw_ok(1) ih(3) by auto
    have z: "removed_of ?ms = []" using ih(4) by simp
    have p: "prefix (filter is_lock_create ?cs) (map lock_create_of (entry # rest))"
      using sw_ok(2) ih(5) entry by (simp add: lock_create_of_def)
    have n: "\<forall>restored'. r = Inr restored' \<longrightarrow>
            filter is_lock_create ?cs = map lock_create_of (entry # rest)
            \<and> (\<exists>new. restored' = restored @ new \<and> map lock_of new = restored_of ?ms)
            \<and> mset (restored_of ?ms) + mset (orphaned_of ?ms) = mset (map lock_of (entry # rest))"
    proof (intro allI impI)
      fix restored' assume "r = Inr restored'"
      with ih(7) obtain more where
        f: "filter is_lock_create cs = map lock_create_of rest"
           "restored' = ?acc @ more" "map lock_of more = restored_of ms"
           "mset (restored_of ms) + mset (orphaned_of ms) = mset (map lock_of rest)"
        by blast
      have 1: "filter is_lock_create ?cs = map lock_create_of (entry # rest)"
        using sw_ok(2) f(1) entry by (simp add: lock_create_of_def)
      have 2: "\<exists>new. restored' = restored @ new \<and> map lock_of new = restored_of ?ms"
      proof (cases ?ok)
        case True
        then have "restored' = restored @ ((a, g, n) # more)"
          "map lock_of ((a, g, n) # more) = restored_of ?ms"
          using f(2,3) by (simp_all add: lock_of_def)
        then show ?thesis by blast
      next
        case False
        then have "restored' = restored @ more" "map lock_of more = restored_of ?ms"
          using f(2,3) by simp_all
        then show ?thesis by blast
      qed
      have 3: "mset (restored_of ?ms) + mset (orphaned_of ?ms) = mset (map lock_of (entry # rest))"
        using f(4) entry by (cases ?ok) (simp_all add: lock_of_def)
      show "filter is_lock_create ?cs = map lock_create_of (entry # rest)
            \<and> (\<exists>new. restored' = restored @ new \<and> map lock_of new = restored_of ?ms)
            \<and> mset (restored_of ?ms) + mset (orphaned_of ?ms) = mset (map lock_of (entry # rest))"
        using 1 2 3 by (intro conjI)
    qed
    show ?thesis by (intro exI conjI) (rule c m k z p ih(6) n)+
  qed
qed

lemma delete_each_trace:
  assumes "\<forall>i \<in> set ids. 3 \<le> length (parts_of i)"
  shows "\<exists>deletion_results s'. delete_each v w names ids results s = (Inr deletion_results, s')
      \<and> calls s' = calls s @ map SnapshotDelete ids \<and> messages s' = messages s"
  using assms
proof (induction ids arbitrary: results s)
  case Nil
  then show ?case by simp
next
  case (Cons i ids)
  let ?ok = "answered_ok w (calls s) (SnapshotDelete i)"
  let ?name = "names_get names (parts_of i ! 2)"
  let ?res = "if ?ok then file_entry results ?name ''deleted'' (Name (last (parts_of i)))
              else file_entry results ?name ''failed'' (Pair (last (parts_of i)) ''Deletion failed'')"
  let ?s1 = "issue (SnapshotDelete i) s"
  have long: "\<not> length (parts_of i) \<le> 2" using Cons.prems by auto
  have step: "delete_each v w names (i # ids) results s = delete_each v w names ids ?res ?s1"
    using long by (simp add: delete_snapshot_eq Let_def)
  from Cons.IH [of ?res ?s1] Cons.prems obtain deletion_results s' where
    "delete_each v w names ids ?res ?s1 = (Inr deletion_results, s')"
    "calls s' = calls ?s1 @ map SnapshotDelete ids" "messages s' = messages ?s1"
    by auto
  then have "delete_each v w names (i # ids) results s = (Inr deletion_results, s')
      \<and> calls s' = calls s @ map SnapshotDelete (i # ids) \<and> messages s' = messages s"
    using step by simp
  then show ?case by blast
qed

lemma check_az_login_trace: "snd (check_az_login v w s) = issue AccountShow s"
  using run_string [of AccountShow v w s]
  by (cases v) (auto simp: check_az_login_def split: sum.splits)

lemma get_subscription_names_trace: "snd (get_subscription_names v w s) = issue AccountList s"
  using run_string [of AccountList v w s]
  by (auto simp: get_subscription_names_def split: sum.splits)

lemma pre_validate_trace:
  assumes "pre_validate_snapshots v w ids names s = ((valid, pre), s')"
  shows "calls s' = calls s @ map SnapshotShow (filter well_formed ids)"
    and "messages s' = messages s"
    and "set valid \<subseteq> {i \<in> set ids. well_formed i}"
proof -
  show "calls s' = calls s @ map SnapshotShow (filter well_formed ids)" "messages s' = messages s"
    using assms validate_each_trace [of v w names ids "[]" Map.empty s]
    by (simp_all add: pre_validate_snapshots_def)
  show "set valid \<subseteq> {i \<in> set ids. well_formed i}"
    using assms validate_each_valid [of v w names ids "[]" Map.empty s]
    by (auto simp: pre_validate_snapshots_def)
qed

lemma well_formed_long: "well_formed i \<Longrightarrow> 3 \<le> length (parts_of i)"
  by (simp add: well_formed_def)

lemma delete_valid_trace:
  assumes "\<forall>i \<in> set valid. well_formed i"
  shows "\<exists>deletion_results s'. delete_valid_snapshots v w valid names s = (Inr deletion_results, s')
      \<and> calls s' = calls s @ map SnapshotDelete valid \<and> messages s' = messages s"
  unfolding delete_valid_snapshots_def
  by (rule delete_each_trace) (use assms well_formed_long in blast)

lemma lock_create_of_lock_of:
  "map lock_create_of ledger = map (\<lambda>(n, g). LockCreate n g) (map lock_of ledger)"
  by (induction ledger) (auto simp: lock_create_of_def lock_of_def)

text \<open>The anatomy of the locked branch: suspend calls, then deletions, then restore calls.\<close>

lemma locked_deletion_trace:
  assumes wf: "\<forall>i \<in> set valid. well_formed i"
      and run: "locked_deletion v w valid names pre s = (r, s')"
  shows "\<exists>cs1 ms1 ds cs3 ms3.
      calls s' = calls s @ cs1 @ ds @ cs3 \<and> messages s' = messages s @ ms1 @ ms3
      \<and> (\<forall>c \<in> set cs1. suspend_call c)
      \<and> prefix (filter is_lock_list cs1)
           (map (LockList \<circ> snd) (visit w (get_resource_groups_from_snapshots valid)))
      \<and> (ds = map SnapshotDelete valid \<or> ds = [] \<and> cs3 = [] \<and> ms3 = [])
      \<and> (\<forall>c \<in> set cs3. restore_call c)
      \<and> prefix (filter is_lock_create cs3) (map (\<lambda>(n, g). LockCreate n g) (removed_of ms1))
      \<and> restored_of ms1 = [] \<and> orphaned_of ms1 = [] \<and> removed_of ms3 = []
      \<and> (\<forall>results. r = Inr results \<longrightarrow>
            filter is_lock_list cs1
              = map (LockList \<circ> snd) (visit w (get_resource_groups_from_snapshots valid))
            \<and> ds = map SnapshotDelete valid
            \<and> filter is_lock_create cs3 = map (\<lambda>(n, g). LockCreate n g) (removed_of ms1)
            \<and> mset (restored_of ms3) + mset (orphaned_of ms3) = mset (removed_of ms1))"
proof -
  let ?rgs = "visit w (get_resource_groups_from_snapshots valid)"
  obtain r1 s1 where su: "suspend_each v w ?rgs None [] s = (r1, s1)" by fastforce
  from suspend_each_trace [OF su] obtain cs1 ms1 where
    a: "calls s1 = calls s @ cs1" "messages s1 = messages s @ ms1"
       "\<forall>c \<in> set cs1. suspend_call c" "restored_of ms1 = []" "orphaned_of ms1 = []"
       "prefix (filter is_lock_list cs1) (map (LockList \<circ> snd) ?rgs)"
       "\<forall>removed'. r1 = Inr removed' \<longrightarrow>
            filter is_lock_list cs1 = map (LockList \<circ> snd) ?rgs
            \<and> (\<exists>new. removed' = [] @ new \<and> map lock_of new = removed_of ms1)"
    by blast
  show ?thesis
  proof (cases r1)
    case (Inl e)
    then have r: "r = Inl e" "s' = s1"
      using run su by (auto simp: locked_deletion_def check_and_remove_scope_locks_def)
    have c: "calls s' = calls s @ cs1 @ [] @ []" and m: "messages s' = messages s @ ms1 @ []"
      using a r by auto
    have d: "[] = map SnapshotDelete valid \<or> [] = [] \<and> [] = [] \<and> ([]::logline list) = []" by simp
    have k: "\<forall>c \<in> set ([]::command list). restore_call c" by simp
    have p: "prefix (filter is_lock_create []) (map (\<lambda>(n, g). LockCreate n g) (removed_of ms1))"
      by simp
    have z: "removed_of [] = []" by simp
    have n: "\<forall>results. r = Inr results \<longrightarrow>
            filter is_lock_list cs1 = map (LockList \<circ> snd) ?rgs
            \<and> [] = map SnapshotDelete valid
            \<and> filter is_lock_create [] = map (\<lambda>(n, g). LockCreate n g) (removed_of ms1)
            \<and> mset (restored_of []) + mset (orphaned_of []) = mset (removed_of ms1)"
      using r by simp
    show ?thesis by (intro exI conjI) (rule c m a(3) a(6) d k p a(4) a(5) z n)+
  next
    case (Inr ledger)
    with a(7) have led: "filter is_lock_list cs1 = map (LockList \<circ> snd) ?rgs"
      "map lock_of ledger = removed_of ms1" by auto
    obtain del s2 where
      de: "delete_valid_snapshots v w valid names s1 = (Inr del, s2)"
          "calls s2 = calls s1 @ map SnapshotDelete valid" "messages s2 = messages s1"
      using delete_valid_trace [OF wf] by blast
    obtain r3 s3 where re: "restore_each v w ledger None [] s2 = (r3, s3)" by fastforce
    from restore_each_trace [OF re] obtain cs3 ms3 where
      b: "calls s3 = calls s2 @ cs3" "messages s3 = messages s2 @ ms3"
         "\<forall>c \<in> set cs3. restore_call c" "removed_of ms3 = []"
         "prefix (filter is_lock_create cs3) (map lock_create_of ledger)"
         "\<forall>restored'. r3 = Inr restored' \<longrightarrow>
            filter is_lock_create cs3 = map lock_create_of ledger
            \<and> (\<exists>new. restored' = [] @ new \<and> map lock_of new = restored_of ms3)
            \<and> mset (restored_of ms3) + mset (orphaned_of ms3) = mset (map lock_of ledger)"
      by blast
    have creates: "map lock_create_of ledger = map (\<lambda>(n, g). LockCreate n g) (removed_of ms1)"
      using led(2) by (simp add: lock_create_of_lock_of)
    have s': "s' = s3" and r: "r = (case r3 of Inl e \<Rightarrow> Inl e | Inr x \<Rightarrow> Inr (merge_results pre del))"
      using run su Inr de(1) re
      by (auto simp: locked_deletion_def check_and_remove_scope_locks_def restore_scope_locks_def
               split: sum.splits)
    have c: "calls s' = calls s @ cs1 @ map SnapshotDelete valid @ cs3"
      using s' a(1) de(2) b(1) by simp
    have m: "messages s' = messages s @ ms1 @ ms3" using s' a(2) de(3) b(2) by simp
    have d: "map SnapshotDelete valid = map SnapshotDelete valid
             \<or> map SnapshotDelete valid = [] \<and> cs3 = [] \<and> ms3 = []" by simp
    have p: "prefix (filter is_lock_create cs3) (map (\<lambda>(n, g). LockCreate n g) (removed_of ms1))"
      using b(5) creates by simp
    have n: "\<forall>results. r = Inr results \<longrightarrow>
            filter is_lock_list cs1 = map (LockList \<circ> snd) ?rgs
            \<and> map SnapshotDelete valid = map SnapshotDelete valid
            \<and> filter is_lock_create cs3 = map (\<lambda>(n, g). LockCreate n g) (removed_of ms1)
            \<and> mset (restored_of ms3) + mset (orphaned_of ms3) = mset (removed_of ms1)"
    proof (intro allI impI)
      fix results assume "r = Inr results"
      then obtain restored' where "r3 = Inr restored'" using r by (cases r3) auto
      with b(6) have "filter is_lock_create cs3 = map lock_create_of ledger"
        "mset (restored_of ms3) + mset (orphaned_of ms3) = mset (map lock_of ledger)" by auto
      then show "filter is_lock_list cs1 = map (LockList \<circ> snd) ?rgs
            \<and> map SnapshotDelete valid = map SnapshotDelete valid
            \<and> filter is_lock_create cs3 = map (\<lambda>(n, g). LockCreate n g) (removed_of ms1)
            \<and> mset (restored_of ms3) + mset (orphaned_of ms3) = mset (removed_of ms1)"
        using led creates by simp
    qed
    show ?thesis by (intro exI conjI) (rule c m a(3) a(6) d b(3) p a(4) a(5) b(4) n)+
  qed
qed

lemma main_trace:
  "snd (main v w ids) =
     (case check_az_login v w start of
        (False, s1) \<Rightarrow> s1
      | (True, s1) \<Rightarrow>
          (case get_subscription_names v w s1 of
             (Inl e, s2) \<Rightarrow> s2
           | (Inr names, s2) \<Rightarrow>
               (case pre_validate_snapshots v w ids names s2 of
                  ((valid, pre), s3) \<Rightarrow>
                    if valid = [] then s3 else snd (locked_deletion v w valid names pre s3))))"
  by (auto simp: main_def main_try_def Let_def split: prod.splits sum.splits bool.splits)

lemma start_trace [simp]: "calls start = []" "messages start = []"
  by (simp_all add: start_def)

lemma main_calls_about_snapshots:
  assumes "c \<in> set (calls (snd (main v w ids)))"
      and "c = SnapshotShow i \<or> c = SnapshotDelete i"
  shows "i \<in> set ids \<and> well_formed i"
proof -
  obtain ok s1 where login: "check_az_login v w start = (ok, s1)" by fastforce
  have s1: "calls s1 = [AccountShow]"
    using check_az_login_trace [of v w start] login by simp
  show ?thesis
  proof (cases ok)
    case False
    then show ?thesis using assms login s1 by (auto simp: main_trace)
  next
    case True
    obtain rn s2 where names: "get_subscription_names v w s1 = (rn, s2)" by fastforce
    have s2: "calls s2 = [AccountShow, AccountList]"
      using get_subscription_names_trace [of v w s1] names s1 by simp
    show ?thesis
    proof (cases rn)
      case (Inl e)
      then show ?thesis using assms login True names s2 by (auto simp: main_trace)
    next
      case (Inr names_dict)
      obtain valid pre s3 where val: "pre_validate_snapshots v w ids names_dict s2 = ((valid, pre), s3)"
        by (metis surj_pair)
      note pv = pre_validate_trace [OF val]
      have s3: "calls s3 = [AccountShow, AccountList] @ map SnapshotShow (filter well_formed ids)"
        using pv(1) s2 by simp
      show ?thesis
      proof (cases "valid = []")
        case True
        then have "snd (main v w ids) = s3"
          using login \<open>ok\<close> names Inr val by (simp add: main_trace)
        then show ?thesis using assms s3 by auto
      next
        case False
        obtain r s' where ld: "locked_deletion v w valid names_dict pre s3 = (r, s')" by fastforce
        have wf: "\<forall>i \<in> set valid. well_formed i" using pv(3) by auto
        from locked_deletion_trace [OF wf ld] obtain cs1 ds cs3 where
          t: "calls s' = calls s3 @ cs1 @ ds @ cs3" "\<forall>c \<in> set cs1. suspend_call c"
             "ds = map SnapshotDelete valid \<or> ds = [] \<and> cs3 = []" "\<forall>c \<in> set cs3. restore_call c"
          by blast
        have "snd (main v w ids) = s'"
          using login \<open>ok\<close> names Inr val False ld by (simp add: main_trace)
        then have "c \<in> set (calls s3) \<or> c \<in> set cs1 \<or> c \<in> set ds \<or> c \<in> set cs3"
          using assms(1) t(1) by auto
        then show ?thesis
        proof (elim disjE)
          assume "c \<in> set (calls s3)" then show ?thesis using assms(2) s3 by auto
        next
          assume "c \<in> set cs1" then have "suspend_call c" using t(2) by blast
          then show ?thesis using assms(2) by auto
        next
          assume "c \<in> set ds" then have "c \<in> set (map SnapshotDelete valid)" using t(3) by auto
          then show ?thesis using assms(2) pv(3) by auto
        next
          assume "c \<in> set cs3" then have "restore_call c" using t(4) by blast
          then show ?thesis using assms(2) by auto
        qed
      qed
    qed
  qed
qed

section \<open>Evaluating the scenarios\<close>

text \<open>
  The parts of the scenario identifiers are computed once; the runs below are evaluated
  with the identifiers kept folded.
\<close>

lemma parts_of_snap_a:
  "parts_of snap_a = ['''', ''subscriptions'', ''111'', ''resourceGroups'', ''rg1'', ''providers'',
     ''Microsoft.Compute'', ''snapshots'', ''snap-a'']"
  by (simp add: parts_of_def snap_a_def)

lemma parts_of_snap_b:
  "parts_of snap_b = ['''', ''subscriptions'', ''111'', ''resourceGroups'', ''rg1'', ''providers'',
     ''Microsoft.Compute'', ''snapshots'', ''snap-b'']"
  by (simp add: parts_of_def snap_b_def)

lemma parts_of_snap_c:
  "parts_of snap_c = ['''', ''subscriptions'', ''222'', ''resourceGroups'', ''rg2'', ''providers'',
     ''Microsoft.Compute'', ''snapshots'', ''snap-c'']"
  by (simp add: parts_of_def snap_c_def)

lemma parts_of_plain_text: "parts_of ''not-a-valid-id'' = [''not-a-valid-id'']"
  by (simp add: parts_of_def)

lemma snaps_differ: "snap_a \<noteq> snap_b" "snap_a \<noteq> snap_c" "snap_b \<noteq> snap_c"
  "snap_b \<noteq> snap_a" "snap_c \<noteq> snap_a" "snap_c \<noteq> snap_b"
  by (simp_all add: snap_a_def snap_b_def snap_c_def)

lemmas run_defs =
  lock_listing_def answers_def world_where_def
  main_def main_try_def check_az_login_def run_az_command_def get_subscription_names_def
  json_loads_def opens_json_def dict_of_def startswith_Error_def issue_def tell_def start_def
  pre_validate_snapshots_def process_snapshot_def check_snapshot_exists_def
  names_get_def file_entry_def locked_deletion_def check_and_remove_scope_locks_def
  switch_subscription_def delete_valid_snapshots_def delete_snapshot_def restore_scope_locks_def
  generate_log_file_def Let_def remove_each.simps restore_each.simps
  parts_of_snap_a parts_of_snap_b parts_of_snap_c parts_of_plain_text

section \<open>The status keys of the two phases\<close>

lemma file_entry_statuses:
  assumes "\<forall>account d. results account = Some d \<longrightarrow> dom d \<subseteq> S" and "status \<in> S"
  shows "\<forall>account d. file_entry results a status data account = Some d \<longrightarrow> dom d \<subseteq> S"
  using assms by (auto simp: file_entry_def Let_def split: option.splits if_splits)

lemma process_snapshot_status:
  "fst (snd (fst (process_snapshot v w i names s))) \<in> {''valid'', ''non-existent'', ''invalid'', ''error''}"
  by (cases "well_formed i") (simp_all add: process_snapshot_long process_snapshot_short)

lemma validate_each_statuses:
  assumes "\<forall>account d. results account = Some d
             \<longrightarrow> dom d \<subseteq> {''valid'', ''non-existent'', ''invalid'', ''error''}"
  shows "\<forall>account d. snd (fst (validate_each v w names ids valid results s)) account = Some d
             \<longrightarrow> dom d \<subseteq> {''valid'', ''non-existent'', ''invalid'', ''error''}"
  using assms
proof (induction ids arbitrary: valid results s)
  case Nil
  then show ?case by simp
next
  case (Cons i ids)
  obtain name status data s' where p: "process_snapshot v w i names s = ((name, status, data), s')"
    by (metis surj_pair)
  have st: "status \<in> {''valid'', ''non-existent'', ''invalid'', ''error''}"
    using process_snapshot_status [of v w i names s] p by simp
  have fe: "\<forall>account d. file_entry results a status data account = Some d
             \<longrightarrow> dom d \<subseteq> {''valid'', ''non-existent'', ''invalid'', ''error''}" for a
    by (rule file_entry_statuses [OF Cons.prems st])
  show ?case
  proof (cases "truthy name")
    case True
    then show ?thesis using p Cons.IH [OF fe] by simp
  next
    case False
    then show ?thesis using p Cons.IH [OF fe] by simp
  qed
qed

lemma delete_each_statuses:
  assumes "\<forall>account d. results account = Some d \<longrightarrow> dom d \<subseteq> {''deleted'', ''failed''}"
      and "delete_each v w names ids results s = (Inr deletion_results, s')"
  shows "\<forall>account d. deletion_results account = Some d \<longrightarrow> dom d \<subseteq> {''deleted'', ''failed''}"
  using assms
proof (induction ids arbitrary: results s)
  case Nil
  then show ?case by simp
next
  case (Cons i ids)
  let ?ok = "answered_ok w (calls s) (SnapshotDelete i)"
  let ?name = "names_get names (parts_of i ! 2)"
  let ?res = "if ?ok then file_entry results ?name ''deleted'' (Name (last (parts_of i)))
              else file_entry results ?name ''failed'' (Pair (last (parts_of i)) ''Deletion failed'')"
  have long: "\<not> length (parts_of i) \<le> 2"
    using Cons.prems(2) by (auto simp: Let_def split: if_splits)
  have step: "delete_each v w names ids ?res (issue (SnapshotDelete i) s) = (Inr deletion_results, s')"
    using Cons.prems(2) long by (cases ?ok) (simp_all add: delete_snapshot_eq Let_def)
  have "\<forall>account d. ?res account = Some d \<longrightarrow> dom d \<subseteq> {''deleted'', ''failed''}"
    using file_entry_statuses [OF Cons.prems(1), of "''deleted''"]
      file_entry_statuses [OF Cons.prems(1), of "''failed''"] by simp
  from Cons.IH [OF this step] show ?case .
qed

lemma merge_keeps_left:
  assumes "\<forall>account d. pre account = Some d \<longrightarrow> dom d \<subseteq> V"
      and "\<forall>account d. del account = Some d \<longrightarrow> dom d \<subseteq> D"
      and "V \<inter> D = {}"
      and "pre account = Some per" and "per status = Some entries"
  shows "\<exists>merged. merge_results pre del account = Some merged \<and> merged status = Some entries"
proof (cases "del account")
  case None
  then show ?thesis using assms(4,5) by (simp add: merge_results_def)
next
  case (Some d)
  have "status \<in> V" using assms(1,4,5) by blast
  then have "status \<notin> dom d" using assms(2,3) Some by blast
  then have "(per ++ d) status = Some entries" using assms(5) by (simp add: map_add_dom_app_simps)
  then show ?thesis using Some assms(4) by (simp add: merge_results_def)
qed

lemma merge_keeps_right:
  assumes "del account = Some per" and "per status = Some entries"
  shows "\<exists>merged. merge_results pre del account = Some merged \<and> merged status = Some entries"
  using assms by (cases "pre account") (simp_all add: merge_results_def)

section \<open>Resource groups of a valid set\<close>

lemma resource_groups_distinct: "distinct (get_resource_groups_from_snapshots ids)"
  by (induction ids) (simp_all add: Let_def)

lemma resource_groups_set:
  "set (get_resource_groups_from_snapshots ids)
     = (\<lambda>i. (parts_of i ! 2, parts_of i ! 4)) ` {i \<in> set ids. 5 \<le> length (parts_of i)}"
  by (induction ids) (auto simp: Let_def)

lemma resource_groups_of_valid:
  assumes "\<forall>i \<in> set valid. well_formed i"
  shows "set (get_resource_groups_from_snapshots valid)
           = (\<lambda>i. (parts_of i ! 2, parts_of i ! 4)) ` set valid"
proof -
  have "{i \<in> set valid. 5 \<le> length (parts_of i)} = set valid"
    using assms by (auto simp: well_formed_def)
  then show ?thesis by (simp add: resource_groups_set)
qed

lemma distinct_singleton:
  assumes "distinct xs" and "set xs = {x}"
  shows "xs = [x]"
proof (cases xs)
  case Nil
  then show ?thesis using assms by simp
next
  case (Cons y ys)
  then have "y = x" "set ys \<subseteq> {x}" "y \<notin> set ys" using assms by auto
  then have "ys = []" by (cases ys) auto
  then show ?thesis using Cons \<open>y = x\<close> by simp
qed

lemma remove_each_calls:
  "calls (snd (remove_each v w a g locks removed s))
     = calls s @ map (\<lambda>(n, l). LockDelete n g) (filter (\<lambda>(n, l). l = ''CanNotDelete'') locks)"
proof (induction locks arbitrary: removed s)
  case Nil
  then show ?case by simp
next
  case (Cons lock locks)
  obtain n l where lock: "lock = (n, l)" by (cases lock)
  show ?case unfolding lock by (simp add: remove_each_Cons Cons.IH)
qed

lemma suspend_single_group:
  assumes "switch_ok v w (calls s) a"
      and "respond w (calls s @ [AccountSet a]) (LockList g) = Exit0 out"
      and "json_loads (decode_locks w) (Some out) = Inr locks"
  shows "calls (snd (suspend_each v w [(a, g)] None [] s))
           = calls s @ [AccountSet a, LockList g]
               @ map (\<lambda>(n, l). LockDelete n g) (filter (\<lambda>(n, l). l = ''CanNotDelete'') locks)"
proof -
  let ?s1 = "issue (AccountSet a) s"
  let ?s2 = "issue (LockList g) ?s1"
  have sw: "switch_subscription v w a None s = (Inr (Some a), ?s1)"
    using assms(1) by (simp add: switch_subscription_eq)
  have run: "run_az_command v w (LockList g) ?s1 = (Inr (Some out), ?s2)"
    using assms(2) by (cases v) (simp_all add: run_az_command_def)
  obtain s3 where s3: "s3 = snd (remove_each v w a g locks [] ?s2)" by simp
  from remove_each_trace [OF this] obtain new where
    rm: "remove_each v w a g locks [] ?s2 = (Inr ([] @ new), s3)" by blast
  have "suspend_each v w [(a, g)] None [] s = (Inr new, s3)"
    using sw run assms(3) rm by simp
  then show ?thesis using s3 remove_each_calls [of v w a g locks "[]" ?s2] by simp
qed

section \<open>Valid identifiers are filed as valid\<close>

lemma file_entry_keeps:
  assumes "\<exists>account per entries. results account = Some per \<and> per status = Some entries
             \<and> e \<in> set entries"
  shows "\<exists>account per entries. file_entry results a status' data account = Some per
             \<and> per status = Some entries \<and> e \<in> set entries"
proof -
  from assms obtain account per entries where
    h: "results account = Some per" "per status = Some entries" "e \<in> set entries" by blast
  show ?thesis
  proof (cases "account = a")
    case False
    then have "file_entry results a status' data account = Some per"
      using h(1) by (simp add: file_entry_def Let_def)
    then show ?thesis using h(2,3) by blast
  next
    case True
    show ?thesis
    proof (cases "status' = status")
      case same: True
      have "file_entry results a status' data a = Some (per(status \<mapsto> entries @ [data]))"
        using True same h(1,2) by (simp add: file_entry_def Let_def)
      moreover have "(per(status \<mapsto> entries @ [data])) status = Some (entries @ [data])" by simp
      moreover have "e \<in> set (entries @ [data])" using h(3) by simp
      ultimately show ?thesis by blast
    next
      case other: False
      have "file_entry results a status' data a
              = Some (per(status' \<mapsto> (case per status' of None \<Rightarrow> [] | Some l \<Rightarrow> l) @ [data]))"
        using True h(1) by (simp add: file_entry_def Let_def)
      moreover have "(per(status' \<mapsto> (case per status' of None \<Rightarrow> [] | Some l \<Rightarrow> l) @ [data])) status
              = Some entries"
        using other h(2) by simp
      ultimately show ?thesis using h(3) by blast
    qed
  qed
qed

lemma file_entry_adds:
  "\<exists>account per entries. file_entry results a status data account = Some per
             \<and> per status = Some entries \<and> data \<in> set entries"
proof -
  let ?per = "case results a of None \<Rightarrow> Map.empty | Some d \<Rightarrow> d"
  let ?listed = "case ?per status of None \<Rightarrow> [] | Some l \<Rightarrow> l"
  have "file_entry results a status data a = Some (?per(status \<mapsto> ?listed @ [data]))"
    by (simp add: file_entry_def Let_def)
  moreover have "(?per(status \<mapsto> ?listed @ [data])) status = Some (?listed @ [data])" by simp
  moreover have "data \<in> set (?listed @ [data])" by simp
  ultimately show ?thesis by blast
qed

lemma validate_each_files_valid:
  assumes "\<forall>i \<in> set valid. \<exists>account per entries. results account = Some per
             \<and> per ''valid'' = Some entries \<and> Name (last (parts_of i)) \<in> set entries"
      and "validate_each v w names ids valid results s = ((valid', results'), s')"
  shows "\<forall>i \<in> set valid'. \<exists>account per entries. results' account = Some per
             \<and> per ''valid'' = Some entries \<and> Name (last (parts_of i)) \<in> set entries"
  using assms
proof (induction ids arbitrary: valid results s)
  case Nil
  then show ?case by simp
next
  case (Cons i ids)
  show ?case
  proof (cases "well_formed i")
    case False
    let ?res = "file_entry results ''Unknown'' ''invalid'' (Pair i ''Invalid snapshot ID format'')"
    have step: "validate_each v w names ids valid ?res s = ((valid', results'), s')"
      using Cons.prems(2) False by (simp add: process_snapshot_short)
    have "\<forall>j \<in> set valid. \<exists>account per entries. ?res account = Some per
             \<and> per ''valid'' = Some entries \<and> Name (last (parts_of j)) \<in> set entries"
      using Cons.prems(1) file_entry_keeps by blast
    from Cons.IH [OF this step] show ?thesis .
  next
    case True
    let ?ok = "answered_ok w (calls s) (SnapshotShow i)"
    let ?st = "if ?ok then ''valid'' else ''non-existent''"
    let ?name = "names_get names (parts_of i ! 2)"
    let ?key = "if ?name = [] then ''Unknown'' else ?name"
    let ?v = "if ?name \<noteq> [] \<and> ?ok then valid @ [i] else valid"
    let ?res = "file_entry results ?key ?st (Name (last (parts_of i)))"
    let ?s1 = "issue (SnapshotShow i) s"
    have step: "validate_each v w names ids ?v ?res ?s1 = ((valid', results'), s')"
      using Cons.prems(2) True by (auto simp: process_snapshot_long split: if_splits)
    have old: "\<forall>j \<in> set valid. \<exists>account per entries. ?res account = Some per
             \<and> per ''valid'' = Some entries \<and> Name (last (parts_of j)) \<in> set entries"
      using Cons.prems(1) file_entry_keeps by blast
    have "\<forall>j \<in> set ?v. \<exists>account per entries. ?res account = Some per
             \<and> per ''valid'' = Some entries \<and> Name (last (parts_of j)) \<in> set entries"
    proof (cases "?name \<noteq> [] \<and> ?ok")
      case False
      then show ?thesis using old by auto
    next
      case yes: True
      then have "?st = ''valid''" by simp
      then have "\<exists>account per entries. ?res account = Some per
             \<and> per ''valid'' = Some entries \<and> Name (last (parts_of i)) \<in> set entries"
        using file_entry_adds [of results ?key "''valid''" "Name (last (parts_of i))"] by simp
      then show ?thesis using old yes by auto
    qed
    from Cons.IH [OF this step] show ?thesis .
  qed
qed

section \<open>The claims\<close>

subsection \<open>C1: restoration after the suspend phase\<close>

text \<open>
  C1 (as stated). Restoration is not run on every exit path once locks have been removed.
  In the world \<open>second_listing_fails\<close> the suspend phase removes \<open>lockA\<close> from \<open>rg1\<close> and
  enters it in its ledger, then the lock listing of \<open>rg2\<close> fails and decoding its result
  raises; the exception reaches the \<open>except\<close> clause of the entry point, which returns the
  error dict. No lock creation is ever issued, in either variant. The world answers both
  resource groups alike, so visiting them in the other order gives the mirror image of
  this run.
\<close>

theorem fault_after_removal_skips_restoration:
  "calls (snd (main Sequential second_listing_fails [snap_a, snap_c]))
     = [AccountShow, AccountList, SnapshotShow snap_a, SnapshotShow snap_c, AccountSet ''111'',
        LockList ''rg1'', LockDelete ''lockA'' ''rg1'', AccountSet ''222'', LockList ''rg2'']
   \<and> messages (snd (main Sequential second_listing_fails [snap_a, snap_c]))
       = [Removed_lock ''lockA'' ''rg1'']
   \<and> fst (main Sequential second_listing_fails [snap_a, snap_c])
       = [(''error'', VStr ''Expecting value: line 1 column 1 (char 0)'')]
   \<and> calls (snd (main Cooperative second_listing_fails [snap_a, snap_c]))
     = [AccountShow, AccountList, SnapshotShow snap_a, SnapshotShow snap_c, AccountSet ''111'',
        LockList ''rg1'', LockDelete ''lockA'' ''rg1'', AccountSet ''222'', LockList ''rg2'']
   \<and> messages (snd (main Cooperative second_listing_fails [snap_a, snap_c]))
       = [Removed_lock ''lockA'' ''rg1'']
   \<and> fst (main Cooperative second_listing_fails [snap_a, snap_c])
       = [(''error'', VStr ''the JSON object must be str, bytes or bytearray, not NoneType'')]"
  by (simp add: second_listing_fails_def run_defs)

text \<open>
  C1 (amended). In every run in which the suspend phase returns its ledger, the deletion
  phase then attempts every valid identifier and returns without raising (a client failure
  is a per-item outcome), and the restore phase is run over exactly that ledger, after all
  deletions: it issues at most one lock creation per ledger entry, in ledger order, and
  exactly one per entry whenever it returns, as it always does in the event-loop variant.
  There is no guaranteed release: a fault raised inside the suspend phase after locks were
  removed, or by an account switch of the restore phase, reaches the caller as the error
  dict without the (remaining) restorations.
\<close>

theorem restore_follows_a_returned_ledger:
  assumes "pre_validate_snapshots v w snapshot_ids names s0
             = ((valid_snapshots, pre_validation_results), s)"
      and "check_and_remove_scope_locks v w (get_resource_groups_from_snapshots valid_snapshots) s
             = (Inr removed_locks, s1)"
  shows "\<exists>deletion_results s2 r s3 cs.
           delete_valid_snapshots v w valid_snapshots names s1 = (Inr deletion_results, s2)
         \<and> calls s2 = calls s1 @ map SnapshotDelete valid_snapshots
         \<and> restore_scope_locks v w removed_locks s2 = (r, s3)
         \<and> snd (locked_deletion v w valid_snapshots names pre_validation_results s) = s3
         \<and> calls s3 = calls s2 @ cs
         \<and> (\<forall>c \<in> set cs. restore_call c)
         \<and> prefix (filter is_lock_create cs) (map lock_create_of removed_locks)
         \<and> (v = Cooperative \<longrightarrow> (\<exists>restored_locks. r = Inr restored_locks))
         \<and> (\<forall>restored_locks. r = Inr restored_locks \<longrightarrow>
               filter is_lock_create cs = map lock_create_of removed_locks
               \<and> fst (locked_deletion v w valid_snapshots names pre_validation_results s)
                   = Inr (merge_results pre_validation_results deletion_results))"
proof -
  have wf: "\<forall>i \<in> set valid_snapshots. well_formed i"
    using pre_validate_trace(3) [OF assms(1)] by auto
  obtain deletion_results s2 where
    de: "delete_valid_snapshots v w valid_snapshots names s1 = (Inr deletion_results, s2)"
        "calls s2 = calls s1 @ map SnapshotDelete valid_snapshots"
    using delete_valid_trace [OF wf] by blast
  obtain r s3 where re: "restore_scope_locks v w removed_locks s2 = (r, s3)" by fastforce
  then have "restore_each v w removed_locks None [] s2 = (r, s3)"
    by (simp add: restore_scope_locks_def)
  from restore_each_trace [OF this] obtain cs ms where
    t: "calls s3 = calls s2 @ cs"
       "\<forall>c \<in> set cs. restore_call c"
       "prefix (filter is_lock_create cs) (map lock_create_of removed_locks)"
       "\<forall>e. r = Inl e \<longrightarrow> v = Sequential"
       "\<forall>restored'. r = Inr restored' \<longrightarrow>
            filter is_lock_create cs = map lock_create_of removed_locks
            \<and> (\<exists>new. restored' = [] @ new \<and> map lock_of new = restored_of ms)
            \<and> mset (restored_of ms) + mset (orphaned_of ms) = mset (map lock_of removed_locks)"
    by blast
  have tr: "snd (locked_deletion v w valid_snapshots names pre_validation_results s) = s3"
    using assms(2) de(1) re by (auto simp: locked_deletion_def split: sum.splits)
  have coop: "v = Cooperative \<longrightarrow> (\<exists>restored_locks. r = Inr restored_locks)"
    using t(4) by (cases r) auto
  have fin: "\<forall>restored_locks. r = Inr restored_locks \<longrightarrow>
               filter is_lock_create cs = map lock_create_of removed_locks
               \<and> fst (locked_deletion v w valid_snapshots names pre_validation_results s)
                   = Inr (merge_results pre_validation_results deletion_results)"
    using t(5) assms(2) de(1) re by (auto simp: locked_deletion_def)
  show ?thesis by (intro exI conjI) (rule de(1) de(2) re tr t(1) t(2) t(3) coop fin)+
qed

theorem restore_follows_a_returned_ledger_witness:
  "check_and_remove_scope_locks Sequential create_fails
       (get_resource_groups_from_snapshots [snap_a, snap_b])
       (issue (SnapshotShow snap_b) (issue (SnapshotShow snap_a) start))
     = (Inr [(''111'', ''rg1'', ''lockA'')],
        \<lparr>calls = [SnapshotShow snap_a, SnapshotShow snap_b, AccountSet ''111'', LockList ''rg1'',
                  LockDelete ''lockA'' ''rg1''],
         messages = [Removed_lock ''lockA'' ''rg1'']\<rparr>)
   \<and> calls (snd (locked_deletion Sequential create_fails [snap_a, snap_b] Map.empty
         (snd (fst (pre_validate_snapshots Sequential create_fails [snap_a, snap_b] Map.empty start)))
         (issue (SnapshotShow snap_b) (issue (SnapshotShow snap_a) start))))
     = [SnapshotShow snap_a, SnapshotShow snap_b, AccountSet ''111'', LockList ''rg1'',
        LockDelete ''lockA'' ''rg1'', SnapshotDelete snap_a, SnapshotDelete snap_b,
        AccountSet ''111'', LockCreate ''lockA'' ''rg1'']"
proof -
  let ?s = "issue (SnapshotShow snap_b) (issue (SnapshotShow snap_a) start)"
  let ?pre = "[''111'' \<mapsto> [''valid'' \<mapsto> [Name ''snap-a'', Name ''snap-b'']]]"
  let ?s1 = "\<lparr>calls = [SnapshotShow snap_a, SnapshotShow snap_b, AccountSet ''111'', LockList ''rg1'',
                  LockDelete ''lockA'' ''rg1''],
         messages = [Removed_lock ''lockA'' ''rg1'']\<rparr>"
  have 1: "pre_validate_snapshots Sequential create_fails [snap_a, snap_b] Map.empty start
             = (([snap_a, snap_b], ?pre), ?s)"
    by (simp add: create_fails_def run_defs)
  have 2: "check_and_remove_scope_locks Sequential create_fails
       (get_resource_groups_from_snapshots [snap_a, snap_b]) ?s
     = (Inr [(''111'', ''rg1'', ''lockA'')], ?s1)"
    by (simp add: create_fails_def run_defs)
  from restore_follows_a_returned_ledger [OF 1 2] obtain deletion_results s2 r s3 cs where
    h: "calls s2 = calls ?s1 @ map SnapshotDelete [snap_a, snap_b]"
       "restore_scope_locks Sequential create_fails [(''111'', ''rg1'', ''lockA'')] s2 = (r, s3)"
       "snd (locked_deletion Sequential create_fails [snap_a, snap_b] Map.empty ?pre ?s) = s3"
       "calls s3 = calls s2 @ cs"
       "\<forall>c \<in> set cs. restore_call c"
       "prefix (filter is_lock_create cs) (map lock_create_of [(''111'', ''rg1'', ''lockA'')])"
    by blast
  have "calls (snd (locked_deletion Sequential create_fails [snap_a, snap_b] Map.empty ?pre ?s))
     = [SnapshotShow snap_a, SnapshotShow snap_b, AccountSet ''111'', LockList ''rg1'',
        LockDelete ''lockA'' ''rg1'', SnapshotDelete snap_a, SnapshotDelete snap_b,
        AccountSet ''111'', LockCreate ''lockA'' ''rg1'']"
    by (simp add: create_fails_def run_defs)
  then show ?thesis using 1 2 h by simp
qed

subsection \<open>C2: the outcome of the existence check\<close>

text \<open>
  C2 (as stated). A refused existence check is not filed as \<open>error\<close>: in the world \<open>denied\<close>
  the check of \<open>snap_a\<close> ends with a non-zero return code and the message
  \<open>AuthorizationFailed\<close>, and both variants classify the identifier as \<open>non-existent\<close>.
\<close>

theorem permission_denied_is_filed_as_non_existent:
  "respond denied [] (SnapshotShow snap_a) = ExitFail ''AuthorizationFailed''
   \<and> fst (process_snapshot Sequential denied snap_a Map.empty start)
       = (Some ''111'', ''non-existent'', Name ''snap-a'')
   \<and> fst (process_snapshot Cooperative denied snap_a Map.empty start)
       = (Some ''111'', ''non-existent'', Name ''snap-a'')
   \<and> fst (snd (fst (process_snapshot Sequential denied snap_a Map.empty start))) \<noteq> ''error''"
  by (simp add: denied_def run_defs)

text \<open>
  C2 (amended). For an identifier with at least 9 parts both variants issue exactly one
  existence check and never raise. The outcome is \<open>valid\<close> when the check is answered
  with success and \<open>non-existent\<close> for every other answer, whatever its cause; it is keyed by
  the display name of the account (the raw id when the name is unknown) and carries the
  resource name. The \<open>error\<close> outcome is never produced, and a failed check is never
  \<open>valid\<close>.
\<close>

theorem existence_check_decides_valid_or_non_existent:
  assumes "9 \<le> length (parts_of snapshot_id)"
  shows "process_snapshot v w snapshot_id names s =
     ((Some (names_get names (parts_of snapshot_id ! 2)),
       (if answered_ok w (calls s) (SnapshotShow snapshot_id) then ''valid'' else ''non-existent''),
       Name (last (parts_of snapshot_id))),
      issue (SnapshotShow snapshot_id) s)"
  using assms process_snapshot_long [of snapshot_id v w names s] by (simp add: well_formed_def)

theorem existence_check_decides_valid_or_non_existent_witness:
  "9 \<le> length (parts_of snap_a)
   \<and> \<not> answered_ok denied (calls start) (SnapshotShow snap_a)
   \<and> process_snapshot Cooperative denied snap_a Map.empty start =
       ((Some ''111'', ''non-existent'', Name ''snap-a''), issue (SnapshotShow snap_a) start)
   \<and> answered_ok quiet (calls start) (SnapshotShow snap_a)
   \<and> process_snapshot Sequential quiet snap_a Map.empty start =
       ((Some ''111'', ''valid'', Name ''snap-a''), issue (SnapshotShow snap_a) start)"
proof -
  have long: "9 \<le> length (parts_of snap_a)" by (simp add: parts_of_snap_a)
  have no: "\<not> answered_ok denied (calls start) (SnapshotShow snap_a)"
    by (simp add: answered_ok_def denied_def world_where_def answers_def)
  have yes: "answered_ok quiet (calls start) (SnapshotShow snap_a)"
    by (simp add: answered_ok_def quiet_def world_where_def answers_def startswith_Error_def)
  show ?thesis
    using long no yes
      existence_check_decides_valid_or_non_existent [OF long, of Cooperative denied Map.empty start]
      existence_check_decides_valid_or_non_existent [OF long, of Sequential quiet Map.empty start]
    by (simp add: names_get_def parts_of_snap_a)
qed

subsection \<open>C3: the restore phase and its ledger\<close>




subsection \<open>C4: which faults end the workflow\<close>




subsection \<open>C5: the merge of the two outcome maps\<close>

text \<open>
  C5. For the outcome maps that validation and execution produce, the merge keeps, for
  every account, every status key with its whole list from both sides: validation files
  only under \<open>valid\<close>, \<open>non-existent\<close>, \<open>invalid\<close>, \<open>error\<close> and execution only under
  \<open>deleted\<close>, \<open>failed\<close>, so \<open>dict.update\<close> never meets a shared key.
\<close>

theorem merge_keeps_every_outcome:
  assumes "pre_validate_snapshots v w snapshot_ids names s
             = ((valid_snapshots, pre_validation_results), s1)"
      and "delete_valid_snapshots v' w' targets names' s2 = (Inr deletion_results, s3)"
  shows "(\<forall>account per status entries.
            pre_validation_results account = Some per \<and> per status = Some entries \<longrightarrow>
            (\<exists>merged. merge_results pre_validation_results deletion_results account = Some merged
               \<and> merged status = Some entries))
       \<and> (\<forall>account per status entries.
            deletion_results account = Some per \<and> per status = Some entries \<longrightarrow>
            (\<exists>merged. merge_results pre_validation_results deletion_results account = Some merged
               \<and> merged status = Some entries))
       \<and> (\<forall>account per per'.
            pre_validation_results account = Some per \<and> deletion_results account = Some per' \<longrightarrow>
            dom per \<inter> dom per' = {})"
proof -
  have pre: "\<forall>account d. pre_validation_results account = Some d
               \<longrightarrow> dom d \<subseteq> {''valid'', ''non-existent'', ''invalid'', ''error''}"
    using validate_each_statuses [of Map.empty v w names snapshot_ids "[]" s] assms(1)
    by (simp add: pre_validate_snapshots_def)
  have del: "\<forall>account d. deletion_results account = Some d \<longrightarrow> dom d \<subseteq> {''deleted'', ''failed''}"
    using delete_each_statuses [of Map.empty v' w' names' targets s2 deletion_results s3] assms(2)
    by (simp add: delete_valid_snapshots_def)
  have apart: "{''valid'', ''non-existent'', ''invalid'', ''error''} \<inter> {''deleted'', ''failed''}
                 = ({} :: string set)"
    by simp
  have "\<forall>account per per'.
            pre_validation_results account = Some per \<and> deletion_results account = Some per' \<longrightarrow>
            dom per \<inter> dom per' = {}"
  proof (intro allI impI)
    fix account per per'
    assume h: "pre_validation_results account = Some per \<and> deletion_results account = Some per'"
    then have "dom per \<subseteq> {''valid'', ''non-existent'', ''invalid'', ''error''}"
      "dom per' \<subseteq> {''deleted'', ''failed''}" using pre del by blast+
    then show "dom per \<inter> dom per' = {}" using apart by blast
  qed
  moreover have "\<forall>account per status entries.
            pre_validation_results account = Some per \<and> per status = Some entries \<longrightarrow>
            (\<exists>merged. merge_results pre_validation_results deletion_results account = Some merged
               \<and> merged status = Some entries)"
  proof (intro allI impI)
    fix account per status entries
    assume "pre_validation_results account = Some per \<and> per status = Some entries"
    then show "\<exists>merged. merge_results pre_validation_results deletion_results account = Some merged
               \<and> merged status = Some entries"
      using merge_keeps_left [OF pre del apart, of account per status entries] by simp
  qed
  moreover have "\<forall>account per status entries.
            deletion_results account = Some per \<and> per status = Some entries \<longrightarrow>
            (\<exists>merged. merge_results pre_validation_results deletion_results account = Some merged
               \<and> merged status = Some entries)"
  proof (intro allI impI)
    fix account per status entries
    assume "deletion_results account = Some per \<and> per status = Some entries"
    then show "\<exists>merged. merge_results pre_validation_results deletion_results account = Some merged
               \<and> merged status = Some entries"
      using merge_keeps_right [of deletion_results account per status entries pre_validation_results]
      by simp
  qed
  ultimately show ?thesis by (intro conjI)
qed

theorem merge_keeps_every_outcome_witness:
  "(\<exists>merged. merge_results (snd (fst (pre_validate_snapshots Sequential quiet [snap_a, snap_b] Map.empty start)))
        [''111'' \<mapsto> [''deleted'' \<mapsto> [Name ''snap-a''], ''failed'' \<mapsto> [Pair ''snap-b'' ''Deletion failed'']]]
        ''111'' = Some merged
      \<and> merged ''valid'' = Some [Name ''snap-a'', Name ''snap-b''])
   \<and> (\<exists>merged. merge_results (snd (fst (pre_validate_snapshots Sequential quiet [snap_a, snap_b] Map.empty start)))
        [''111'' \<mapsto> [''deleted'' \<mapsto> [Name ''snap-a''], ''failed'' \<mapsto> [Pair ''snap-b'' ''Deletion failed'']]]
        ''111'' = Some merged
      \<and> merged ''failed'' = Some [Pair ''snap-b'' ''Deletion failed''])"
proof -
  let ?pre = "[''111'' \<mapsto> [''valid'' \<mapsto> [Name ''snap-a'', Name ''snap-b'']]]"
  let ?del = "[''111'' \<mapsto> [''deleted'' \<mapsto> [Name ''snap-a''],
                                ''failed'' \<mapsto> [Pair ''snap-b'' ''Deletion failed'']]]"
  let ?w = "world_where (\<lambda>history command. command = SnapshotDelete snap_b)"
  have 1: "pre_validate_snapshots Sequential quiet [snap_a, snap_b] Map.empty start
             = (([snap_a, snap_b], ?pre),
                issue (SnapshotShow snap_b) (issue (SnapshotShow snap_a) start))"
    by (simp add: quiet_def run_defs)
  have 2: "delete_valid_snapshots Cooperative ?w [snap_a, snap_b] Map.empty start
             = (Inr ?del, issue (SnapshotDelete snap_b) (issue (SnapshotDelete snap_a) start))"
    by (simp add: run_defs snaps_differ)
  note inst = merge_keeps_every_outcome [OF 1 2]
  have a: "\<exists>merged. merge_results ?pre ?del ''111'' = Some merged
      \<and> merged ''valid'' = Some [Name ''snap-a'', Name ''snap-b'']"
    using inst [THEN conjunct1, rule_format,
        of "''111''" "[''valid'' \<mapsto> [Name ''snap-a'', Name ''snap-b'']]" "''valid''"
           "[Name ''snap-a'', Name ''snap-b'']"]
    by simp
  have b: "\<exists>merged. merge_results ?pre ?del ''111'' = Some merged
      \<and> merged ''failed'' = Some [Pair ''snap-b'' ''Deletion failed'']"
    using inst [THEN conjunct2, THEN conjunct1, rule_format,
        of "''111''" "[''deleted'' \<mapsto> [Name ''snap-a''],
                       ''failed'' \<mapsto> [Pair ''snap-b'' ''Deletion failed'']]" "''failed''"
           "[Pair ''snap-b'' ''Deletion failed'']"]
    by simp
  show ?thesis using a b 1 by simp
qed

subsection \<open>C6: identifiers with fewer than nine parts\<close>

text \<open>
  C6. An identifier with fewer than 9 parts is classified \<open>invalid\<close> (malformed) without
  any client call: the trace is unchanged. It is never in the valid set, from which alone
  lock discovery and deletion take their targets, and no run of the workflow issues an
  existence check or a deletion for it.
\<close>

theorem short_identifier_is_malformed:
  assumes "length (parts_of snapshot_id) < 9"
  shows "process_snapshot v w snapshot_id names s
           = ((None, ''invalid'', Pair snapshot_id ''Invalid snapshot ID format''), s)
       \<and> snapshot_id \<notin> set (fst (fst (pre_validate_snapshots v w ids names s)))
       \<and> SnapshotShow snapshot_id \<notin> set (calls (snd (main v w ids)))
       \<and> SnapshotDelete snapshot_id \<notin> set (calls (snd (main v w ids)))"
proof -
  have short: "\<not> well_formed snapshot_id" using assms by (simp add: well_formed_def)
  obtain valid pre s' where val: "pre_validate_snapshots v w ids names s = ((valid, pre), s')"
    by (metis surj_pair)
  have "snapshot_id \<notin> set valid" using pre_validate_trace(3) [OF val] short by auto
  then have "snapshot_id \<notin> set (fst (fst (pre_validate_snapshots v w ids names s)))"
    using val by simp
  moreover have "SnapshotShow snapshot_id \<notin> set (calls (snd (main v w ids)))"
    using main_calls_about_snapshots [of "SnapshotShow snapshot_id" v w ids snapshot_id] short
    by blast
  moreover have "SnapshotDelete snapshot_id \<notin> set (calls (snd (main v w ids)))"
    using main_calls_about_snapshots [of "SnapshotDelete snapshot_id" v w ids snapshot_id] short
    by blast
  ultimately show ?thesis using short by (simp add: process_snapshot_short)
qed

theorem short_identifier_is_malformed_witness:
  "length (parts_of ''not-a-valid-id'') < 9
   \<and> process_snapshot Sequential quiet ''not-a-valid-id'' Map.empty start
       = ((None, ''invalid'', Pair ''not-a-valid-id'' ''Invalid snapshot ID format''), start)
   \<and> ''not-a-valid-id'' \<notin> set (fst (fst (pre_validate_snapshots Sequential quiet
         [''not-a-valid-id'', snap_a] Map.empty start)))
   \<and> SnapshotShow ''not-a-valid-id'' \<notin> set (calls (snd (main Sequential quiet [''not-a-valid-id'', snap_a])))
   \<and> SnapshotDelete ''not-a-valid-id'' \<notin> set (calls (snd (main Sequential quiet [''not-a-valid-id'', snap_a])))"
proof -
  have short: "length (parts_of ''not-a-valid-id'') < 9" by (simp add: parts_of_plain_text)
  show ?thesis
    using short short_identifier_is_malformed [OF short, of Sequential quiet Map.empty start
        "[''not-a-valid-id'', snap_a]"]
    by simp
qed

subsection \<open>C7: identifiers that share a resource group\<close>

text \<open>
  C7. The resource groups derived from a valid set are pairwise distinct and are exactly the
  (account, resource group) pairs of its identifiers, so identifiers that share a pair
  contribute it once. The locks of each pair are listed at most once; when all identifiers
  share one pair, the suspend phase is one account switch, one listing and one removal per
  listed \<open>CanNotDelete\<close> lock. Every valid identifier is reported as valid, the deletion of
  every valid identifier is attempted once the suspend phase has returned, and the restore
  phase comes after all deletions and issues at most one lock creation per removed lock.
\<close>

theorem shared_group_is_suspended_once:
  assumes "pre_validate_snapshots v w snapshot_ids names s0
             = ((valid_snapshots, pre_validation_results), s)"
      and "distinct (visit w (get_resource_groups_from_snapshots valid_snapshots))
           \<and> set (visit w (get_resource_groups_from_snapshots valid_snapshots))
               = set (get_resource_groups_from_snapshots valid_snapshots)"
      and "locked_deletion v w valid_snapshots names pre_validation_results s = (r, s')"
  shows "distinct (get_resource_groups_from_snapshots valid_snapshots)
       \<and> set (get_resource_groups_from_snapshots valid_snapshots)
           = (\<lambda>i. (parts_of i ! 2, parts_of i ! 4)) ` set valid_snapshots
       \<and> (\<forall>i \<in> set valid_snapshots. \<exists>account per entries.
             pre_validation_results account = Some per \<and> per ''valid'' = Some entries
             \<and> Name (last (parts_of i)) \<in> set entries)
       \<and> (\<forall>a g out locks.
             get_resource_groups_from_snapshots valid_snapshots = [(a, g)]
             \<and> switch_ok v w (calls s) a
             \<and> respond w (calls s @ [AccountSet a]) (LockList g) = Exit0 out
             \<and> json_loads (decode_locks w) (Some out) = Inr locks \<longrightarrow>
             calls (snd (check_and_remove_scope_locks v w
                      (get_resource_groups_from_snapshots valid_snapshots) s))
               = calls s @ [AccountSet a, LockList g]
                   @ map (\<lambda>(n, l). LockDelete n g) (filter (\<lambda>(n, l). l = ''CanNotDelete'') locks))
       \<and> (\<exists>cs1 ms1 ds cs3 ms3.
             calls s' = calls s @ cs1 @ ds @ cs3 \<and> messages s' = messages s @ ms1 @ ms3
             \<and> (\<forall>c \<in> set cs1. suspend_call c)
             \<and> prefix (filter is_lock_list cs1)
                  (map (LockList \<circ> snd) (visit w (get_resource_groups_from_snapshots valid_snapshots)))
             \<and> (ds = map SnapshotDelete valid_snapshots \<or> ds = [] \<and> cs3 = [] \<and> ms3 = [])
             \<and> (\<forall>c \<in> set cs3. restore_call c)
             \<and> prefix (filter is_lock_create cs3) (map (\<lambda>(n, g). LockCreate n g) (removed_of ms1))
             \<and> (\<forall>results. r = Inr results \<longrightarrow>
                   filter is_lock_list cs1
                     = map (LockList \<circ> snd)
                         (visit w (get_resource_groups_from_snapshots valid_snapshots))
                   \<and> ds = map SnapshotDelete valid_snapshots
                   \<and> filter is_lock_create cs3 = map (\<lambda>(n, g). LockCreate n g) (removed_of ms1)))"
proof -
  let ?rgs = "get_resource_groups_from_snapshots valid_snapshots"
  have wf: "\<forall>i \<in> set valid_snapshots. well_formed i"
    using pre_validate_trace(3) [OF assms(1)] by auto
  have d: "distinct ?rgs" by (rule resource_groups_distinct)
  have e: "set ?rgs = (\<lambda>i. (parts_of i ! 2, parts_of i ! 4)) ` set valid_snapshots"
    by (rule resource_groups_of_valid [OF wf])
  have f: "\<forall>i \<in> set valid_snapshots. \<exists>account per entries.
             pre_validation_results account = Some per \<and> per ''valid'' = Some entries
             \<and> Name (last (parts_of i)) \<in> set entries"
    using validate_each_files_valid [where valid = "[]" and results = Map.empty and v = v
        and w = w and names = names and ids = snapshot_ids and s = s0
        and valid' = valid_snapshots and results' = pre_validation_results and s' = s] assms(1)
    by (simp add: pre_validate_snapshots_def)
  have g: "\<forall>a g out locks.
             ?rgs = [(a, g)]
             \<and> switch_ok v w (calls s) a
             \<and> respond w (calls s @ [AccountSet a]) (LockList g) = Exit0 out
             \<and> json_loads (decode_locks w) (Some out) = Inr locks \<longrightarrow>
             calls (snd (check_and_remove_scope_locks v w ?rgs s))
               = calls s @ [AccountSet a, LockList g]
                   @ map (\<lambda>(n, l). LockDelete n g) (filter (\<lambda>(n, l). l = ''CanNotDelete'') locks)"
  proof (intro allI impI)
    fix a g out locks
    assume h: "?rgs = [(a, g)]
             \<and> switch_ok v w (calls s) a
             \<and> respond w (calls s @ [AccountSet a]) (LockList g) = Exit0 out
             \<and> json_loads (decode_locks w) (Some out) = Inr locks"
    then have "distinct (visit w ?rgs)" "set (visit w ?rgs) = {(a, g)}"
      using assms(2) by simp_all
    then have "visit w ?rgs = [(a, g)]" by (rule distinct_singleton)
    then show "calls (snd (check_and_remove_scope_locks v w ?rgs s))
               = calls s @ [AccountSet a, LockList g]
                   @ map (\<lambda>(n, l). LockDelete n g) (filter (\<lambda>(n, l). l = ''CanNotDelete'') locks)"
      using h suspend_single_group [of v w s a g out locks]
      by (simp add: check_and_remove_scope_locks_def)
  qed
  from locked_deletion_trace [OF wf assms(3)] obtain cs1 ms1 ds cs3 ms3 where
    t: "calls s' = calls s @ cs1 @ ds @ cs3" "messages s' = messages s @ ms1 @ ms3"
       "\<forall>c \<in> set cs1. suspend_call c"
       "prefix (filter is_lock_list cs1) (map (LockList \<circ> snd) (visit w ?rgs))"
       "ds = map SnapshotDelete valid_snapshots \<or> ds = [] \<and> cs3 = [] \<and> ms3 = []"
       "\<forall>c \<in> set cs3. restore_call c"
       "prefix (filter is_lock_create cs3) (map (\<lambda>(n, g). LockCreate n g) (removed_of ms1))"
       "\<forall>results. r = Inr results \<longrightarrow>
            filter is_lock_list cs1 = map (LockList \<circ> snd) (visit w ?rgs)
            \<and> ds = map SnapshotDelete valid_snapshots
            \<and> filter is_lock_create cs3 = map (\<lambda>(n, g). LockCreate n g) (removed_of ms1)
            \<and> mset (restored_of ms3) + mset (orphaned_of ms3) = mset (removed_of ms1)"
    by blast
  have u: "\<forall>results. r = Inr results \<longrightarrow>
            filter is_lock_list cs1 = map (LockList \<circ> snd) (visit w ?rgs)
            \<and> ds = map SnapshotDelete valid_snapshots
            \<and> filter is_lock_create cs3 = map (\<lambda>(n, g). LockCreate n g) (removed_of ms1)"
    using t(8) by blast
  have anatomy: "\<exists>cs1 ms1 ds cs3 ms3.
             calls s' = calls s @ cs1 @ ds @ cs3 \<and> messages s' = messages s @ ms1 @ ms3
             \<and> (\<forall>c \<in> set cs1. suspend_call c)
             \<and> prefix (filter is_lock_list cs1) (map (LockList \<circ> snd) (visit w ?rgs))
             \<and> (ds = map SnapshotDelete valid_snapshots \<or> ds = [] \<and> cs3 = [] \<and> ms3 = [])
             \<and> (\<forall>c \<in> set cs3. restore_call c)
             \<and> prefix (filter is_lock_create cs3) (map (\<lambda>(n, g). LockCreate n g) (removed_of ms1))
             \<and> (\<forall>results. r = Inr results \<longrightarrow>
                   filter is_lock_list cs1 = map (LockList \<circ> snd) (visit w ?rgs)
                   \<and> ds = map SnapshotDelete valid_snapshots
                   \<and> filter is_lock_create cs3 = map (\<lambda>(n, g). LockCreate n g) (removed_of ms1))"
    by (intro exI conjI) (rule t(1) t(2) t(3) t(4) t(5) t(6) t(7) u)+
  show ?thesis using d e f g anatomy by (intro conjI)
qed

text \<open>
  The scenario of the specification: two valid identifiers in one resource group that
  carries one \<open>CanNotDelete\<close> lock. One account switch, one listing, one removal; both
  deletions; then one lock creation.
\<close>

theorem shared_group_is_suspended_once_witness:
  "get_resource_groups_from_snapshots [snap_a, snap_b] = [(''111'', ''rg1'')]
   \<and> (\<exists>account per entries.
         snd (fst (pre_validate_snapshots Sequential quiet [snap_a, snap_b] Map.empty
                     (issue AccountList (issue AccountShow start)))) account = Some per
         \<and> per ''valid'' = Some entries \<and> Name ''snap-b'' \<in> set entries)
   \<and> calls (snd (check_and_remove_scope_locks Sequential quiet
         (get_resource_groups_from_snapshots [snap_a, snap_b])
         \<lparr>calls = [AccountShow, AccountList, SnapshotShow snap_a, SnapshotShow snap_b],
          messages = []\<rparr>))
       = [AccountShow, AccountList, SnapshotShow snap_a, SnapshotShow snap_b,
          AccountSet ''111'', LockList ''rg1'', LockDelete ''lockA'' ''rg1'']
   \<and> calls (snd (main Sequential quiet [snap_a, snap_b]))
       = [AccountShow, AccountList, SnapshotShow snap_a, SnapshotShow snap_b,
          AccountSet ''111'', LockList ''rg1'', LockDelete ''lockA'' ''rg1'',
          SnapshotDelete snap_a, SnapshotDelete snap_b,
          AccountSet ''111'', LockCreate ''lockA'' ''rg1'']
   \<and> (\<exists>results per. map_of (fst (main Sequential quiet [snap_a, snap_b])) ''results''
                        = Some (VResults results)
         \<and> results ''111'' = Some per
         \<and> per ''valid'' = Some [Name ''snap-a'', Name ''snap-b'']
         \<and> per ''deleted'' = Some [Name ''snap-a'', Name ''snap-b'']
         \<and> per ''failed'' = None)"
proof -
  let ?init = "issue AccountList (issue AccountShow start)"
  let ?s = "\<lparr>calls = [AccountShow, AccountList, SnapshotShow snap_a, SnapshotShow snap_b],
          messages = []\<rparr>"
  let ?pre = "[''111'' \<mapsto> [''valid'' \<mapsto> [Name ''snap-a'', Name ''snap-b'']]]"
  have rgs: "get_resource_groups_from_snapshots [snap_a, snap_b] = [(''111'', ''rg1'')]"
    by (simp add: parts_of_snap_a parts_of_snap_b)
  have 1: "pre_validate_snapshots Sequential quiet [snap_a, snap_b] Map.empty ?init
             = (([snap_a, snap_b], ?pre), ?s)"
    by (simp add: quiet_def run_defs)
  have 2: "distinct (visit quiet (get_resource_groups_from_snapshots [snap_a, snap_b]))
           \<and> set (visit quiet (get_resource_groups_from_snapshots [snap_a, snap_b]))
               = set (get_resource_groups_from_snapshots [snap_a, snap_b])"
    unfolding rgs by (simp add: quiet_def world_where_def)
  obtain r s' where 3: "locked_deletion Sequential quiet [snap_a, snap_b] Map.empty ?pre ?s = (r, s')"
    by fastforce
  note inst = shared_group_is_suspended_once [OF 1 2 3]
  have filed: "\<exists>account per entries. ?pre account = Some per
         \<and> per ''valid'' = Some entries \<and> Name ''snap-b'' \<in> set entries"
    using inst [THEN conjunct2, THEN conjunct2, THEN conjunct1, rule_format, of snap_b]
    by (simp add: parts_of_snap_b)
  have ok: "switch_ok Sequential quiet (calls ?s) ''111''"
    by (simp add: switch_ok_def quiet_def world_where_def answers_def)
  have listing: "respond quiet (calls ?s @ [AccountSet ''111'']) (LockList ''rg1'') = Exit0 lock_listing"
    by (simp add: quiet_def world_where_def answers_def)
  have decoded: "json_loads (decode_locks quiet) (Some lock_listing) = Inr [(''lockA'', ''CanNotDelete'')]"
    by (simp add: json_loads_def opens_json_def quiet_def world_where_def lock_listing_def)
  have once: "calls (snd (check_and_remove_scope_locks Sequential quiet
         (get_resource_groups_from_snapshots [snap_a, snap_b]) ?s))
       = [AccountShow, AccountList, SnapshotShow snap_a, SnapshotShow snap_b,
          AccountSet ''111'', LockList ''rg1'', LockDelete ''lockA'' ''rg1'']"
    using inst [THEN conjunct2, THEN conjunct2, THEN conjunct2, THEN conjunct1, rule_format,
        of "''111''" "''rg1''" lock_listing "[(''lockA'', ''CanNotDelete'')]"]
      rgs ok listing decoded
    by simp
  have run: "calls (snd (main Sequential quiet [snap_a, snap_b]))
       = [AccountShow, AccountList, SnapshotShow snap_a, SnapshotShow snap_b,
          AccountSet ''111'', LockList ''rg1'', LockDelete ''lockA'' ''rg1'',
          SnapshotDelete snap_a, SnapshotDelete snap_b,
          AccountSet ''111'', LockCreate ''lockA'' ''rg1'']"
    by (simp add: quiet_def run_defs)
  have report: "\<exists>results per. map_of (fst (main Sequential quiet [snap_a, snap_b])) ''results''
                        = Some (VResults results)
         \<and> results ''111'' = Some per
         \<and> per ''valid'' = Some [Name ''snap-a'', Name ''snap-b'']
         \<and> per ''deleted'' = Some [Name ''snap-a'', Name ''snap-b'']
         \<and> per ''failed'' = None"
    by (simp add: quiet_def run_defs merge_results_def)
  show ?thesis using rgs filed once run report 1 by simp
qed

subsection \<open>C8: an empty valid set\<close>

text \<open>
  C8. When validation yields no valid identifier, the workflow issues nothing after the
  existence checks: its calls are the login check, the account listing and one existence
  check per well-formed identifier, so no lock listing, lock removal, lock creation or
  deletion. The report it returns holds the validation outcomes unchanged (or, when the
  log directory cannot be made, the error dict is returned).
\<close>

theorem empty_valid_set_skips_locks_and_deletion:
  assumes "check_az_login v w start = (True, s1)"
      and "get_subscription_names v w s1 = (Inr names, s2)"
      and "pre_validate_snapshots v w snapshot_ids names s2 = (([], pre_validation_results), s3)"
  shows "calls (snd (main v w snapshot_ids))
           = [AccountShow, AccountList] @ map SnapshotShow (filter well_formed snapshot_ids)
       \<and> (\<forall>c \<in> set (calls (snd (main v w snapshot_ids))).
             \<not> is_lock_list c \<and> \<not> mutating c \<and> \<not> suspend_call c)
       \<and> (case makedirs w (calls s3) of
             None \<Rightarrow> map_of (fst (main v w snapshot_ids)) ''results''
                      = Some (VResults pre_validation_results)
           | Some e \<Rightarrow> fst (main v w snapshot_ids) = [(''error'', VStr (str_of w e))])"
proof -
  have c1: "calls s1 = [AccountShow]"
    using check_az_login_trace [of v w start] assms(1) by simp
  have c2: "calls s2 = [AccountShow, AccountList]"
    using get_subscription_names_trace [of v w s1] assms(2) c1 by simp
  have c3: "calls s3 = [AccountShow, AccountList] @ map SnapshotShow (filter well_formed snapshot_ids)"
    using pre_validate_trace(1) [OF assms(3)] c2 by simp
  have tr: "snd (main v w snapshot_ids) = s3"
    using assms by (simp add: main_trace)
  have "\<forall>c \<in> set (calls s3). \<not> is_lock_list c \<and> \<not> mutating c \<and> \<not> suspend_call c"
    unfolding c3 by auto
  moreover have "(case makedirs w (calls s3) of
             None \<Rightarrow> map_of (fst (main v w snapshot_ids)) ''results''
                      = Some (VResults pre_validation_results)
           | Some e \<Rightarrow> fst (main v w snapshot_ids) = [(''error'', VStr (str_of w e))])"
    using assms by (simp add: main_def main_try_def generate_log_file_def Let_def split: option.splits)
  ultimately show ?thesis using tr c3 by simp
qed

theorem empty_valid_set_skips_locks_and_deletion_witness:
  "calls (snd (main Sequential denied [''not-a-valid-id'', snap_a]))
     = [AccountShow, AccountList, SnapshotShow snap_a]
   \<and> map_of (fst (main Sequential denied [''not-a-valid-id'', snap_a])) ''results''
     = Some (VResults
         [''Unknown'' \<mapsto> [''invalid'' \<mapsto> [Pair ''not-a-valid-id'' ''Invalid snapshot ID format'']],
          ''111'' \<mapsto> [''non-existent'' \<mapsto> [Name ''snap-a'']]])"
proof -
  let ?pre = "[''Unknown'' \<mapsto> [''invalid'' \<mapsto> [Pair ''not-a-valid-id'' ''Invalid snapshot ID format'']],
          ''111'' \<mapsto> [''non-existent'' \<mapsto> [Name ''snap-a'']]]"
  have 1: "check_az_login Sequential denied start = (True, issue AccountShow start)"
    by (simp add: denied_def run_defs)
  have 2: "get_subscription_names Sequential denied (issue AccountShow start)
            = (Inr Map.empty, issue AccountList (issue AccountShow start))"
    by (simp add: denied_def run_defs)
  have 3: "pre_validate_snapshots Sequential denied [''not-a-valid-id'', snap_a] Map.empty
             (issue AccountList (issue AccountShow start))
            = (([], ?pre), issue (SnapshotShow snap_a) (issue AccountList (issue AccountShow start)))"
    by (simp add: denied_def run_defs)
  have wf: "filter well_formed [''not-a-valid-id'', snap_a] = [snap_a]"
    by (simp add: well_formed_def parts_of_snap_a parts_of_plain_text)
  have 4: "makedirs denied (calls (issue (SnapshotShow snap_a) (issue AccountList (issue AccountShow start)))) = None"
    by (simp add: denied_def world_where_def)
  show ?thesis
    using empty_valid_set_skips_locks_and_deletion [OF 1 2 3] wf 4 by simp
qed

subsection \<open>C9: a failed lock listing\<close>

text \<open>
  C9. When the lock listing of the first resource group visited ends with a non-zero
  return code, the suspend phase raises: \<open>JSONDecodeError\<close> from decoding the text
  \<open>Error: ...\<close> (Sequential), \<open>TypeError\<close> from decoding \<open>None\<close> (Cooperative). The
  exception leaves \<open>check_and_remove_scope_locks\<close> and the locked branch of the workflow
  right after that listing: no outcome is recorded and the remaining groups are not visited.
\<close>

theorem failed_lock_listing_raises:
  assumes "visit w (get_resource_groups_from_snapshots valid_snapshots)
             = (subscription_id, resource_group) # rest"
      and "switch_ok v w (calls s) subscription_id"
      and "respond w (calls s @ [AccountSet subscription_id]) (LockList resource_group) = ExitFail err"
  shows "check_and_remove_scope_locks v w (get_resource_groups_from_snapshots valid_snapshots) s
           = (Inl (case v of Sequential \<Rightarrow> JSONDecodeError | Cooperative \<Rightarrow> TypeError),
              issue (LockList resource_group) (issue (AccountSet subscription_id) s))
       \<and> locked_deletion v w valid_snapshots names pre s
           = (Inl (case v of Sequential \<Rightarrow> JSONDecodeError | Cooperative \<Rightarrow> TypeError),
              issue (LockList resource_group) (issue (AccountSet subscription_id) s))"
proof -
  have sw: "switch_subscription v w subscription_id None s
              = (Inr (Some subscription_id), issue (AccountSet subscription_id) s)"
    using assms(2) by (simp add: switch_subscription_eq)
  have "suspend_each v w ((subscription_id, resource_group) # rest) None [] s
          = (Inl (case v of Sequential \<Rightarrow> JSONDecodeError | Cooperative \<Rightarrow> TypeError),
             issue (LockList resource_group) (issue (AccountSet subscription_id) s))"
    using assms(3) sw
    by (cases v) (simp_all add: run_az_command_def json_loads_def opens_json_def)
  then show ?thesis
    using assms(1) by (simp add: check_and_remove_scope_locks_def locked_deletion_def)
qed

theorem failed_lock_listing_raises_witness:
  "locked_deletion Sequential listing_fails [snap_a, snap_c] Map.empty Map.empty start
     = (Inl JSONDecodeError, issue (LockList ''rg1'') (issue (AccountSet ''111'') start))
   \<and> locked_deletion Cooperative listing_fails [snap_a, snap_c] Map.empty Map.empty start
     = (Inl TypeError, issue (LockList ''rg1'') (issue (AccountSet ''111'') start))"
proof -
  have 1: "visit listing_fails (get_resource_groups_from_snapshots [snap_a, snap_c])
             = (''111'', ''rg1'') # [(''222'', ''rg2'')]"
    by (simp add: listing_fails_def world_where_def parts_of_snap_a parts_of_snap_c)
  have 2: "switch_ok v listing_fails (calls start) ''111''" for v
    by (simp add: switch_ok_def listing_fails_def world_where_def answers_def)
  have 3: "respond listing_fails (calls start @ [AccountSet ''111'']) (LockList ''rg1'')
             = ExitFail ''AuthorizationFailed''"
    by (simp add: listing_fails_def world_where_def answers_def)
  show ?thesis
    using failed_lock_listing_raises [OF 1 2 [of Cooperative] 3, where names = Map.empty and pre = Map.empty]
      failed_lock_listing_raises [OF 1 2 [of Sequential] 3, where names = Map.empty and pre = Map.empty]
    by simp
qed

subsection \<open>C10: what the entry point returns\<close>

text \<open>
  C10. The entry point always returns a dict: its keys are \<open>results\<close>, \<open>log_file\<close>,
  \<open>total_runtime\<close>, or it is the dict with the single key \<open>error\<close> and a message.
\<close>

theorem main_returns_report_or_error:
  "map fst (fst (main v w snapshot_ids)) = [''results'', ''log_file'', ''total_runtime'']
   \<or> (\<exists>message. fst (main v w snapshot_ids) = [(''error'', VStr message)])"
  by (auto simp: main_def main_try_def Let_def
           split: prod.splits sum.splits bool.splits option.splits)

end
